theory Spec2Isabelle
  imports Complex_Main "HOL-Library.AList" "HOL-Library.FSet"
begin

section \<open>Python values\<close>

text \<open>
  A Python \<open>str\<close> is a sequence of Unicode code points, so it is modelled as a list of
  natural numbers (the names of this program are Chinese, outside any 8-bit character).
  Percentages are Python floats; they are modelled as real numbers, so rounding is not
  part of the model.
\<close>

type_synonym pystr = "nat list"

definition is_space :: "nat \<Rightarrow> bool" where
  \<comment> \<open>\<open>str.isspace\<close> on one code point\<close>
  "is_space c \<longleftrightarrow>
     c \<in> {0x09..0x0D} \<union> {0x1C..0x20} \<union> {0x85, 0xA0, 0x1680} \<union> {0x2000..0x200A}
       \<union> {0x2028, 0x2029, 0x202F, 0x205F, 0x3000}"

definition strip :: "pystr \<Rightarrow> pystr" where
  \<comment> \<open>\<open>str.strip()\<close>\<close>
  "strip s = rev (dropWhile is_space (rev (dropWhile is_space s)))"

fun endswith :: "pystr \<Rightarrow> pystr \<Rightarrow> bool" where
  "endswith s suffix \<longleftrightarrow> length suffix \<le> length s \<and> drop (length s - length suffix) s = suffix"

datatype py_error = KeyError

section \<open>String constants of \<open>node.py\<close>\<close>

definition ROOT_NAME :: pystr where
  "ROOT_NAME = [0x6295, 0x8CC7, 0x7D44, 0x5408]"

definition NAME_CASH :: pystr where
  "NAME_CASH = [0x73FE, 0x91D1]"

definition NAME_ETF :: pystr where
  "NAME_ETF = [0x45, 0x54, 0x46]"

definition NAME_STOCK :: pystr where
  "NAME_STOCK = [0x80A1, 0x7968]"

definition NAME_FUND :: pystr where
  "NAME_FUND = [0x57FA, 0x91D1]"

definition NAME_CRYPTO :: pystr where
  "NAME_CRYPTO = [0x52A0, 0x5BC6, 0x8CA8, 0x5E63]"

definition NAME_OTHER :: pystr where
  \<comment> \<open>the generic fallback name\<close>
  "NAME_OTHER = [0x5176, 0x4ED6]"

definition SYMBOL_SUFFIX :: pystr where
  \<comment> \<open>\<open>"_SYMBOL"\<close>\<close>
  "SYMBOL_SUFFIX = [0x5F, 0x53, 0x59, 0x4D, 0x42, 0x4F, 0x4C]"

definition PATH_SEP :: pystr where
  \<comment> \<open>\<open>" -> "\<close>\<close>
  "PATH_SEP = [0x20, 0x2D, 0x3E, 0x20]"

definition MSG_EMPTY_OR_EXISTS :: pystr where
  \<comment> \<open>the name is empty or already exists\<close>
  "MSG_EMPTY_OR_EXISTS =
     [0x540D, 0x7A31, 0x4E0D, 0x80FD, 0x70BA, 0x7A7A, 0x6216, 0x5DF2, 0x5B58, 0x5728]"

definition MSG_CANNOT_ADD :: pystr where
  \<comment> \<open>children cannot be added\<close>
  "MSG_CANNOT_ADD = [0x4E0D, 0x80FD, 0x65B0, 0x589E, 0x5B50, 0x7BC0, 0x9EDE]"

definition MSG_UNSUPPORTED :: pystr where
  \<comment> \<open>this node type is not supported\<close>
  "MSG_UNSUPPORTED = [0x4E0D, 0x652F, 0x63F4, 0x6B64, 0x7BC0, 0x9EDE, 0x985E, 0x578B]"

section \<open>The collaborators of \<open>Node\<close>\<close>

text \<open>
  The modules \<open>enums\<close>, \<open>hierarchy\<close> and \<open>providers\<close> are imported by \<open>node.py\<close>
  and \<open>diagram.py\<close> but are not part of the sources at hand. Their functions are
  parameters of the model: a value of type \<open>'k policy\<close> holds them, \<open>'k\<close> being the
  enumeration \<open>NodeType\<close>. They are taken to be pure. A Python set of node types is
  given as a list of its elements; only its emptiness, its membership test, its number
  of distinct elements and its element when there is exactly one are used. Members of
  the enumeration are truthy, as those of a plain \<open>Enum\<close> are.
\<close>

record 'k policy =
  hm_can_have_children :: "'k \<Rightarrow> bool"
  hm_get_valid_child_types :: "'k \<Rightarrow> 'k list"
  ar_get_symbol_names :: "'k \<Rightarrow> pystr list"
  ar_get_available_names :: "'k list \<Rightarrow> pystr list"
  ar_get_name_type :: "pystr \<Rightarrow> 'k list \<Rightarrow> 'k option"
  nt_get_symbol_type :: "'k \<Rightarrow> 'k option"
  nt_name :: "'k \<Rightarrow> pystr"
  nt_CASH :: 'k
  nt_ETF :: 'k
  nt_STOCK :: 'k
  nt_FUND :: 'k
  nt_CRYPTO :: 'k
  nt_OTHER :: 'k
  get_color :: "'k \<Rightarrow> pystr"

section \<open>AllocationGroup\<close>

text \<open>
  Modelled from the spec: the class \<open>AllocationGroup\<close> of \<open>allocation.py\<close>, which is
  not among the sources. The spec gives it a mapping \<open>allocations\<close> from child name to
  percentage and a set \<open>fixed_items\<close> of child names; \<open>get_allocation\<close> returns the
  stored percentage or the default, \<open>update_allocation\<close> sets or overwrites the stored
  percentage and validates nothing. The mapping is a Python dict, kept here as an
  association list in insertion order.
\<close>

record allocation_group =
  allocations :: "(pystr \<times> real) list"
  fixed_items :: "pystr fset"

definition AllocationGroup :: allocation_group where
  "AllocationGroup = \<lparr>allocations = [], fixed_items = {||}\<rparr>"

definition get_allocation :: "allocation_group \<Rightarrow> pystr \<Rightarrow> real \<Rightarrow> real" where
  "get_allocation g nm dflt =
     (case map_of (allocations g) nm of Some v \<Rightarrow> v | None \<Rightarrow> dflt)"

definition update_allocation :: "allocation_group \<Rightarrow> pystr \<Rightarrow> real \<Rightarrow> allocation_group" where
  "update_allocation g nm v = g\<lparr>allocations := AList.update nm v (allocations g)\<rparr>"

definition group_truthy :: "allocation_group \<Rightarrow> bool" where
  \<comment> \<open>Modelled from the spec: the truth value of an \<open>AllocationGroup\<close> object. The spec
      reads the test of \<open>_initialize_child_allocation\<close> as ``lazily constructed if
      absent'': a group that exists is truthy, whatever it holds.\<close>
  "group_truthy g \<longleftrightarrow> True"

section \<open>Node objects and the heap\<close>

text \<open>
  Nodes are mutable objects that refer to each other in both directions (\<open>children\<close>
  downwards, \<open>parent_node\<close> upwards), so they live in a heap: a list of node records, a
  reference being an index into it. A new object takes the next index. The dict
  \<open>children\<close> is an association list in insertion order, whose values are references.
\<close>

type_synonym ref = nat

record 'k node =
  name :: pystr
  node_type :: 'k
  children :: "(pystr \<times> ref) list"
  allocation_group :: allocation_group
  parent_node :: "ref option"

type_synonym 'k heap = "'k node list"

definition Node :: "pystr \<Rightarrow> 'k \<Rightarrow> 'k node" where
  \<comment> \<open>\<open>Node.__init__\<close>\<close>
  "Node nm t =
     \<lparr>name = nm, node_type = t, children = [], allocation_group = AllocationGroup,
      parent_node = None\<rparr>"

definition is_root :: "'k node \<Rightarrow> bool" where
  "is_root self \<longleftrightarrow> name self = ROOT_NAME"

partial_function (option) full_path :: "'k heap \<Rightarrow> ref \<Rightarrow> pystr option" where
  "full_path h self =
     (case parent_node (h ! self) of
        None \<Rightarrow> Some (name (h ! self))
      | Some p \<Rightarrow>
          Option.bind (full_path h p) (\<lambda>s. Some (s @ PATH_SEP @ name (h ! self))))"

definition has_children :: "'k node \<Rightarrow> bool" where
  "has_children self \<longleftrightarrow> children self \<noteq> []"

definition can_have_children :: "'k policy \<Rightarrow> 'k node \<Rightarrow> bool" where
  "can_have_children P self \<longleftrightarrow> hm_can_have_children P (node_type self)"

definition get_valid_child_types :: "'k policy \<Rightarrow> 'k node \<Rightarrow> 'k list" where
  "get_valid_child_types P self = hm_get_valid_child_types P (node_type self)"

definition get_available_child_names :: "'k policy \<Rightarrow> 'k node \<Rightarrow> pystr list" where
  "get_available_child_names P self =
     (if \<not> can_have_children P self then []
      else if is_root self then
        [NAME_CASH, NAME_ETF, NAME_STOCK, NAME_FUND, NAME_CRYPTO, NAME_OTHER]
      else
        (let available_node_types = get_valid_child_types P self in
         if available_node_types = [] then []
         else
           (let available_names =
                  (if length (remdups available_node_types) = 1
                      \<and> endswith (nt_name P (hd available_node_types)) SYMBOL_SUFFIX
                   then ar_get_symbol_names P (node_type self)
                   else ar_get_available_names P available_node_types)
            in available_names @ [NAME_OTHER])))"

definition root_asset_types :: "'k policy \<Rightarrow> (pystr \<times> 'k) list" where
  "root_asset_types P =
     [(NAME_CASH, nt_CASH P), (NAME_ETF, nt_ETF P), (NAME_STOCK, nt_STOCK P),
      (NAME_FUND, nt_FUND P), (NAME_CRYPTO, nt_CRYPTO P), (NAME_OTHER, nt_OTHER P)]"

definition determine_child_type :: "'k policy \<Rightarrow> 'k node \<Rightarrow> pystr \<Rightarrow> 'k option" where
  "determine_child_type P self child_name =
     (let valid_types = get_valid_child_types P self in
      if valid_types = [] then None
      else if is_root self then
        (let t = (case map_of (root_asset_types P) child_name of
                    Some t' \<Rightarrow> t' | None \<Rightarrow> nt_OTHER P)
         in if t \<in> set valid_types then Some t else None)
      else
        (case nt_get_symbol_type P (node_type self) of
           None \<Rightarrow> ar_get_name_type P child_name valid_types
         | Some symbol_type \<Rightarrow>
             if symbol_type \<in> set valid_types
                \<and> (child_name = NAME_OTHER
                    \<or> child_name \<notin> set (ar_get_symbol_names P (node_type self)))
             then Some symbol_type
             else ar_get_name_type P child_name valid_types))"

definition set_group :: "'k heap \<Rightarrow> ref \<Rightarrow> allocation_group \<Rightarrow> 'k heap" where
  \<comment> \<open>the assignment \<open>self.allocation_group = g\<close>, and the mutation of the group in place\<close>
  "set_group h self g = h[self := (h ! self)\<lparr>allocation_group := g\<rparr>]"

definition set_children :: "'k heap \<Rightarrow> ref \<Rightarrow> (pystr \<times> ref) list \<Rightarrow> 'k heap" where
  \<comment> \<open>the mutation of the dict \<open>self.children\<close> in place\<close>
  "set_children h self cs = h[self := (h ! self)\<lparr>children := cs\<rparr>]"

definition fixed_sum :: "allocation_group \<Rightarrow> py_error + real" where
  \<comment> \<open>\<open>sum(allocations[n] for n in fixed_items)\<close>: a fixed name without an entry raises\<close>
  "fixed_sum g =
     (if \<forall>n \<in> fset (fixed_items g). n \<in> fst ` set (allocations g)
      then Inr (\<Sum>n \<in> fset (fixed_items g). get_allocation g n 0)
      else Inl KeyError)"

definition initialize_child_allocation ::
  "'k heap \<Rightarrow> ref \<Rightarrow> pystr \<Rightarrow> real \<Rightarrow> 'k heap \<times> (py_error + unit)" where
  "initialize_child_allocation h self nm parent_weight =
     (let h1 = (if \<not> group_truthy (allocation_group (h ! self))
                then set_group h self AllocationGroup else h);
          g = allocation_group (h1 ! self)
      in if length (children (h1 ! self)) = 1
         then (set_group h1 self (update_allocation g nm parent_weight), Inr ())
         else
           (case fixed_sum g of
              Inl e \<Rightarrow> (h1, Inl e)
            | Inr fixed_total \<Rightarrow>
                (let unfixed_total = 100 - fixed_total;
                     unfixed_count = int (length (children (h1 ! self)))
                                       - int (fcard (fixed_items g))
                 in if unfixed_count > 0
                    then (set_group h1 self
                            (update_allocation g nm (unfixed_total / real_of_int unfixed_count)),
                          Inr ())
                    else (set_group h1 self (update_allocation g nm 0), Inr ()))))"

definition add_child ::
  "'k policy \<Rightarrow> 'k heap \<Rightarrow> ref \<Rightarrow> pystr \<Rightarrow> real
     \<Rightarrow> 'k heap \<times> (py_error + ref option \<times> pystr)" where
  "add_child P h self nm parent_weight =
     (let cleaned_name = strip nm in
      if cleaned_name = [] \<or> cleaned_name \<in> fst ` set (children (h ! self))
      then (h, Inr (None, MSG_EMPTY_OR_EXISTS))
      else if \<not> can_have_children P (h ! self)
      then (h, Inr (None, MSG_CANNOT_ADD))
      else
        (case determine_child_type P (h ! self) cleaned_name of
           None \<Rightarrow> (h, Inr (None, MSG_UNSUPPORTED))
         | Some t \<Rightarrow>
             (let new_node = length h;
                  h1 = h @ [Node cleaned_name t];
                  h2 = h1[new_node := (h1 ! new_node)\<lparr>parent_node := Some self\<rparr>];
                  h3 = set_children h2 self
                         (AList.update cleaned_name new_node (children (h2 ! self)))
              in case initialize_child_allocation h3 self cleaned_name parent_weight of
                   (h4, Inl e) \<Rightarrow> (h4, Inl e)
                 | (h4, Inr u) \<Rightarrow> (h4, Inr (Some new_node, [])))))"

definition remove_child :: "'k heap \<Rightarrow> ref \<Rightarrow> pystr \<Rightarrow> 'k heap \<times> bool" where
  "remove_child h self nm =
     (if nm \<notin> fst ` set (children (h ! self)) then (h, False)
      else
        (let h1 = set_children h self (AList.delete nm (children (h ! self)));
             g = allocation_group (h1 ! self);
             g2 = (if group_truthy g
                   then
                     (let g1 = (if nm \<in> fst ` set (allocations g)
                                then g\<lparr>allocations := AList.delete nm (allocations g)\<rparr>
                                else g)
                      in if nm |\<in>| fixed_items g1
                         then g1\<lparr>fixed_items := fixed_items g1 |-| {|nm|}\<rparr>
                         else g1)
                   else g)
         in (set_group h1 self g2, True)))"

section \<open>A sample policy\<close>

text \<open>
  The theorems below hold for every policy. Concrete evaluations need one: this small
  hierarchy has a root that takes the six top-level categories, an ETF category that
  takes symbols, and leaves.
\<close>

datatype sample_kind =
  K_ROOT | K_CASH | K_ETF | K_STOCK | K_FUND | K_CRYPTO | K_OTHER | K_ETF_SYMBOL

definition sample_policy :: "sample_kind policy" where
  "sample_policy =
     \<lparr>hm_can_have_children = (\<lambda>k. k = K_ROOT \<or> k = K_ETF),
      hm_get_valid_child_types =
        (\<lambda>k. if k = K_ROOT then [K_CASH, K_ETF, K_STOCK, K_FUND, K_CRYPTO, K_OTHER]
             else if k = K_ETF then [K_ETF_SYMBOL] else []),
      ar_get_symbol_names = (\<lambda>k. []),
      ar_get_available_names = (\<lambda>ks. []),
      ar_get_name_type = (\<lambda>nm ks. None),
      nt_get_symbol_type = (\<lambda>k. if k = K_ETF then Some K_ETF_SYMBOL else None),
      nt_name = (\<lambda>k. if k = K_ETF_SYMBOL then [0x45, 0x54, 0x46] @ SYMBOL_SUFFIX else []),
      nt_CASH = K_CASH, nt_ETF = K_ETF, nt_STOCK = K_STOCK, nt_FUND = K_FUND,
      nt_CRYPTO = K_CRYPTO, nt_OTHER = K_OTHER,
      get_color = (\<lambda>k. [])\<rparr>"

section \<open>Auxiliary definitions\<close>

definition inserted :: "'k heap \<Rightarrow> ref \<Rightarrow> pystr \<Rightarrow> 'k \<Rightarrow> 'k heap" where
  \<comment> \<open>the heap of \<open>add_child\<close> after its three assignments (new node, its parent link, the
      entry of \<open>children\<close>) when the name is not yet a key\<close>
  "inserted h self cn t =
     (h @ [(Node cn t)\<lparr>parent_node := Some self\<rparr>])
       [self := (h ! self)\<lparr>children := children (h ! self) @ [(cn, length h)]\<rparr>]"

text \<open>
  A sample heap: an ETF category with two symbols, \<open>VTI\<close> pinned at 70 percent (pinning
  is an action of the surrounding application), \<open>VXUS\<close> at 30.
\<close>

definition VTI :: pystr where
  "VTI = [0x56, 0x54, 0x49]"

definition VXUS :: pystr where
  "VXUS = [0x56, 0x58, 0x55, 0x53]"

definition BND :: pystr where
  "BND = [0x42, 0x4E, 0x44]"

definition etf_heap :: "sample_kind heap" where
  "etf_heap =
     [\<lparr>name = NAME_ETF, node_type = K_ETF, children = [(VTI, 1), (VXUS, 2)],
       allocation_group = \<lparr>allocations = [(VTI, 70), (VXUS, 30)], fixed_items = {|VTI|}\<rparr>,
       parent_node = None\<rparr>,
      (Node VTI K_ETF_SYMBOL)\<lparr>parent_node := Some 0\<rparr>,
      (Node VXUS K_ETF_SYMBOL)\<lparr>parent_node := Some 0\<rparr>]"

text \<open>
  A second sample policy, with a catalog that knows names: the ETF category takes
  symbols and the catalog knows two of them; a fund category takes stocks and cash.
\<close>

definition catalog_policy :: "sample_kind policy" where
  "catalog_policy =
     \<lparr>hm_can_have_children = (\<lambda>k. k = K_ROOT \<or> k = K_ETF \<or> k = K_FUND),
      hm_get_valid_child_types =
        (\<lambda>k. if k = K_ROOT then [K_CASH, K_ETF, K_STOCK, K_FUND, K_CRYPTO, K_OTHER]
             else if k = K_ETF then [K_ETF_SYMBOL]
             else if k = K_FUND then [K_STOCK, K_CASH] else []),
      ar_get_symbol_names = (\<lambda>k. if k = K_ETF then [VTI, VXUS] else []),
      ar_get_available_names =
        (\<lambda>ks. concat (map (\<lambda>k. if k = K_STOCK then [NAME_STOCK]
                                else if k = K_CASH then [NAME_CASH] else []) ks)),
      ar_get_name_type = (\<lambda>nm ks. None),
      nt_get_symbol_type = (\<lambda>k. if k = K_ETF then Some K_ETF_SYMBOL else None),
      nt_name = (\<lambda>k. if k = K_ETF_SYMBOL then [0x45, 0x54, 0x46] @ SYMBOL_SUFFIX else []),
      nt_CASH = K_CASH, nt_ETF = K_ETF, nt_STOCK = K_STOCK, nt_FUND = K_FUND,
      nt_CRYPTO = K_CRYPTO, nt_OTHER = K_OTHER,
      get_color = (\<lambda>k. [])\<rparr>"


section \<open>Sequences of operations on one node\<close>

text \<open>
  A caller applies \<open>add_child\<close> and \<open>remove_child\<close> to a node one after the other; the
  heap of one call is the heap the next one starts from.
\<close>

datatype node_op = AddChild pystr real | RemoveChild pystr

fun apply_op :: "'k policy \<Rightarrow> 'k heap \<Rightarrow> ref \<Rightarrow> node_op \<Rightarrow> 'k heap" where
  "apply_op P h self (AddChild nm w) = fst (add_child P h self nm w)"
| "apply_op P h self (RemoveChild nm) = fst (remove_child h self nm)"

definition run_ops :: "'k policy \<Rightarrow> 'k heap \<Rightarrow> ref \<Rightarrow> node_op list \<Rightarrow> 'k heap" where
  "run_ops P h self ops = foldl (\<lambda>h' op. apply_op P h' self op) h ops"

text \<open>The bookkeeping that such sequences keep, whatever the policy.\<close>

definition ledger_ok :: "'k heap \<Rightarrow> ref \<Rightarrow> bool" where
  "ledger_ok h self \<longleftrightarrow>
     self < length h
     \<and> fixed_items (allocation_group (h ! self)) = {||}
     \<and> map fst (allocations (allocation_group (h ! self))) = map fst (children (h ! self))"

text \<open>
  Sample runs on a fresh root: a child under the root's own name; two children; one
  child added and removed again.
\<close>

definition root_named_child_heap :: "sample_kind heap" where
  "root_named_child_heap =
     run_ops sample_policy [Node ROOT_NAME K_ROOT] 0 [AddChild ROOT_NAME 100]"

definition two_children_heap :: "sample_kind heap" where
  "two_children_heap =
     run_ops sample_policy [Node ROOT_NAME K_ROOT] 0 [AddChild [0x41] 100, AddChild [0x42] 100]"

definition emptied_heap :: "sample_kind heap" where
  "emptied_heap =
     run_ops sample_policy [Node ROOT_NAME K_ROOT] 0 [AddChild [0x41] 100, RemoveChild [0x41]]"

section \<open>Parent links\<close>

text \<open>
  A node is well linked when every entry of its \<open>children\<close> refers to an object of the
  heap whose \<open>parent_node\<close> is that node and whose \<open>name\<close> is the key. A tree is well
  linked when every node that can be reached from its root through \<open>children\<close> is.
\<close>

definition links_ok :: "'k heap \<Rightarrow> ref \<Rightarrow> bool" where
  "links_ok h r \<longleftrightarrow>
     (\<forall>(nm, c) \<in> set (children (h ! r)).
        c < length h \<and> parent_node (h ! c) = Some r \<and> name (h ! c) = nm)"

inductive reachable :: "'k heap \<Rightarrow> ref \<Rightarrow> ref \<Rightarrow> bool" for h :: "'k heap" and r0 :: ref where
  reach_root: "reachable h r0 r0"
| reach_child: "reachable h r0 p \<Longrightarrow> (nm, c) \<in> set (children (h ! p)) \<Longrightarrow> reachable h r0 c"

definition tree_links_ok :: "'k heap \<Rightarrow> ref \<Rightarrow> bool" where
  "tree_links_ok h r0 \<longleftrightarrow> r0 < length h \<and> (\<forall>r. reachable h r0 r \<longrightarrow> links_ok h r)"

section \<open>Paths to a node\<close>

text \<open>
  The spec describes \<open>full_path\<close> as the names from the root to the node, joined by
  a separator. \<open>joined\<close> is that joining (\<open>str.join\<close>), and \<open>root_path h ps r\<close> says
  that \<open>ps\<close> lists the nodes from a node without parent down to \<open>r\<close>, each one the
  \<open>parent_node\<close> of the next.
\<close>

fun joined :: "pystr \<Rightarrow> pystr list \<Rightarrow> pystr" where
  "joined sep [] = []"
| "joined sep [x] = x"
| "joined sep (x # y # ys) = x @ sep @ joined sep (y # ys)"

inductive root_path :: "'k heap \<Rightarrow> ref list \<Rightarrow> ref \<Rightarrow> bool" for h :: "'k heap" where
  at_top: "parent_node (h ! r) = None \<Longrightarrow> root_path h [r] r"
| below: "parent_node (h ! r) = Some p \<Longrightarrow> root_path h ps p \<Longrightarrow> root_path h (ps @ [r]) r"

text \<open>A chain of three levels, built by \<open>add_child\<close>: the root, the ETF category, \<open>VTI\<close>.\<close>

definition chain_heap :: "sample_kind heap" where
  "chain_heap =
     fst (add_child sample_policy
            (fst (add_child sample_policy [Node ROOT_NAME K_ROOT] 0 NAME_ETF 100)) 1 VTI 100)"

section \<open>The Sankey chart of \<open>diagram.py\<close>\<close>

text \<open>
  \<open>create_sankey_chart\<close> walks the tree with an explicit stack. The stack is a Python
  list: \<open>pop()\<close> takes its last element and \<open>append\<close> adds at its end, and so does the
  model. The loop runs as long as the stack is not empty, which is for ever on a cyclic
  heap, so the result is optional. \<open>get_color\<close> is a function of the module \<open>enums\<close>
  and a field of the policy.
\<close>

record chart =
  source_indices :: "int list"
  target_indices :: "int list"
  flow_values :: "real list"
  node_labels :: "pystr list"
  node_colors :: "pystr list"

definition SankeyChart :: chart where
  "SankeyChart =
     \<lparr>source_indices = [], target_indices = [], flow_values = [], node_labels = [],
      node_colors = []\<rparr>"

partial_function (option) sankey_loop ::
  "'k policy \<Rightarrow> 'k heap \<Rightarrow> (ref \<times> int \<times> real) list \<Rightarrow> chart \<Rightarrow> chart option" where
  "sankey_loop P h node_stack chart =
     (if node_stack = [] then Some chart
      else
        (let current = fst (last node_stack);
             parent_idx = fst (snd (last node_stack));
             current_weight = snd (snd (last node_stack));
             popped = butlast node_stack;
             current_idx = int (length (node_labels chart));
             chart1 = chart
               \<lparr>node_labels := node_labels chart @ [name (h ! current)],
                node_colors := node_colors chart @ [get_color P (node_type (h ! current))]\<rparr>;
             chart2 =
               (if parent_idx \<noteq> - 1
                then chart1
                  \<lparr>flow_values := flow_values chart1 @ [current_weight],
                   source_indices := source_indices chart1 @ [parent_idx],
                   target_indices := target_indices chart1 @ [current_idx]\<rparr>
                else chart1);
             pushed =
               map (\<lambda>child.
                      (child, current_idx,
                       current_weight
                         * get_allocation (allocation_group (h ! current)) (name (h ! child)) 0
                         / 100))
                   (rev (map snd (children (h ! current))))
         in sankey_loop P h (popped @ pushed) chart2))"

definition create_sankey_chart :: "'k policy \<Rightarrow> 'k heap \<Rightarrow> ref \<Rightarrow> chart option" where
  "create_sankey_chart P h node = sankey_loop P h [(node, - 1, 100)] SankeyChart"

text \<open>
  The spec's global weight of a node: 100, multiplied for each step of the path from the
  root by the local percentage of that step and divided by 100; the local percentage
  is the entry of the parent's \<open>allocations\<close> for the child, or 0 without one. A path
  is a list of references that starts at the root.
\<close>

definition local_pct :: "'k heap \<Rightarrow> ref \<Rightarrow> ref \<Rightarrow> real" where
  "local_pct h p c = get_allocation (allocation_group (h ! p)) (name (h ! c)) 0"

fun weight_along :: "'k heap \<Rightarrow> real \<Rightarrow> ref list \<Rightarrow> real" where
  "weight_along h w (p # c # rest) = weight_along h (w * local_pct h p c / 100) (c # rest)"
| "weight_along h w [p] = w"
| "weight_along h w [] = w"

definition global_weight :: "'k heap \<Rightarrow> ref list \<Rightarrow> real" where
  "global_weight h path = weight_along h 100 path"

text \<open>Each node of the path is a child of the one before.\<close>

fun child_path :: "'k heap \<Rightarrow> ref list \<Rightarrow> bool" where
  "child_path h (p # c # rest) \<longleftrightarrow> c \<in> snd ` set (children (h ! p)) \<and> child_path h (c # rest)"
| "child_path h [p] \<longleftrightarrow> True"
| "child_path h [] \<longleftrightarrow> True"

text \<open>
  The paths of a tree in preorder: \<open>preorder h pre r ps\<close> lists in \<open>ps\<close> the path
  \<open>pre @ [r]\<close> of \<open>r\<close> and then the paths below each child of \<open>r\<close>, children in the
  order of the dict. Such a list exists when the heap below \<open>r\<close> is finite and free of
  cycles.
\<close>

inductive preorder :: "'k heap \<Rightarrow> ref list \<Rightarrow> ref \<Rightarrow> ref list list \<Rightarrow> bool"
  and preorder_forest :: "'k heap \<Rightarrow> ref list \<Rightarrow> ref list \<Rightarrow> ref list list \<Rightarrow> bool"
  for h :: "'k heap" where
  visit: "preorder_forest h (pre @ [r]) (map snd (children (h ! r))) pss
            \<Longrightarrow> preorder h pre r ((pre @ [r]) # pss)"
| no_child: "preorder_forest h pre [] []"
| next_child: "preorder h pre c ps \<Longrightarrow> preorder_forest h pre cs pss
            \<Longrightarrow> preorder_forest h pre (c # cs) (ps @ pss)"

text \<open>
  Objects are created after their parents: every child reference is larger than the
  reference of its node. A fresh node has this shape and \<open>add_child\<close> and
  \<open>remove_child\<close> keep it, so the heaps that they build hold trees.
\<close>

definition ordered_heap :: "'k heap \<Rightarrow> bool" where
  "ordered_heap h \<longleftrightarrow>
     (\<forall>r < length h. \<forall>e \<in> set (children (h ! r)). r < snd e \<and> snd e < length h)"

text \<open>One round of the loop on an entry that has a parent, and the entry pushed for a child.\<close>

definition visited :: "'k policy \<Rightarrow> 'k heap \<Rightarrow> ref \<Rightarrow> int \<Rightarrow> real \<Rightarrow> chart \<Rightarrow> chart" where
  "visited P h r parent_idx w c =
     c\<lparr>node_labels := node_labels c @ [name (h ! r)],
       node_colors := node_colors c @ [get_color P (node_type (h ! r))],
       flow_values := flow_values c @ [w],
       source_indices := source_indices c @ [parent_idx],
       target_indices := target_indices c @ [int (length (node_labels c))]\<rparr>"

definition child_entry :: "'k heap \<Rightarrow> ref \<Rightarrow> int \<Rightarrow> real \<Rightarrow> ref \<Rightarrow> ref \<times> int \<times> real" where
  "child_entry h p idx w c = (c, idx, w * local_pct h p c / 100)"

text \<open>The chart that belongs to a list of visited paths, the first of which is the root's.\<close>

definition chart_for :: "'k policy \<Rightarrow> 'k heap \<Rightarrow> ref list list \<Rightarrow> chart \<Rightarrow> bool" where
  "chart_for P h D c \<longleftrightarrow>
     D \<noteq> []
     \<and> node_labels c = map (\<lambda>p. name (h ! last p)) D
     \<and> node_colors c = map (\<lambda>p. get_color P (node_type (h ! last p))) D
     \<and> flow_values c = map (global_weight h) (tl D)
     \<and> target_indices c = map int [1..<length D]
     \<and> length (source_indices c) = length D - 1
     \<and> (\<forall>i < length D - 1.
           0 \<le> source_indices c ! i \<and> nat (source_indices c ! i) < length D
           \<and> D ! nat (source_indices c ! i) = butlast (D ! (i + 1)))"

text \<open>
  A sample tree: the root gives 60 to the ETF category and 40 to cash; the category
  gives 50 to \<open>VTI\<close> and has no entry for \<open>VXUS\<close>.
\<close>

definition sankey_heap :: "sample_kind heap" where
  "sankey_heap =
     [\<lparr>name = ROOT_NAME, node_type = K_ROOT, children = [(NAME_ETF, 1), (NAME_CASH, 2)],
       allocation_group = \<lparr>allocations = [(NAME_ETF, 60), (NAME_CASH, 40)], fixed_items = {||}\<rparr>,
       parent_node = None\<rparr>,
      \<lparr>name = NAME_ETF, node_type = K_ETF, children = [(VTI, 3), (VXUS, 4)],
       allocation_group = \<lparr>allocations = [(VTI, 50)], fixed_items = {||}\<rparr>,
       parent_node = Some 0\<rparr>,
      (Node NAME_CASH K_CASH)\<lparr>parent_node := Some 0\<rparr>,
      (Node VTI K_ETF_SYMBOL)\<lparr>parent_node := Some 1\<rparr>,
      (Node VXUS K_ETF_SYMBOL)\<lparr>parent_node := Some 1\<rparr>]"

section \<open>Names of children\<close>

text \<open>
  The children of a node have unique names when every key of \<open>children\<close> is a stripped
  name (stripping it changes nothing) and no two keys strip to the same name. A heap has
  unique names when each of its nodes has.
\<close>

definition unique_names :: "(pystr \<times> ref) list \<Rightarrow> bool" where
  "unique_names cs \<longleftrightarrow>
     (\<forall>e \<in> set cs. strip (fst e) = fst e) \<and> distinct (map (\<lambda>e. strip (fst e)) cs)"

definition heap_names_ok :: "'k heap \<Rightarrow> bool" where
  "heap_names_ok h \<longleftrightarrow> (\<forall>r < length h. unique_names (children (h ! r)))"

section \<open>Evaluation of concrete instances\<close>

lemmas str_defs = ROOT_NAME_def NAME_CASH_def NAME_ETF_def NAME_STOCK_def NAME_FUND_def
  NAME_CRYPTO_def NAME_OTHER_def SYMBOL_SUFFIX_def PATH_SEP_def MSG_EMPTY_OR_EXISTS_def
  MSG_CANNOT_ADD_def MSG_UNSUPPORTED_def

lemmas eval_defs = add_child_def initialize_child_allocation_def remove_child_def
  determine_child_type_def get_valid_child_types_def can_have_children_def is_root_def
  Node_def AllocationGroup_def update_allocation_def get_allocation_def group_truthy_def
  set_group_def set_children_def fixed_sum_def root_asset_types_def strip_def is_space_def
  sample_policy_def fcard_fempty fcard_finsert_if

lemmas sample_defs = etf_heap_def VTI_def VXUS_def BND_def

section \<open>\<open>is_root\<close>\<close>

text \<open>
  Claim C3, as the code has it: \<open>is_root\<close> compares the name with the reserved root name
  and nothing else, so it does not depend on the parent link; for a node without a
  parent it is the test that the claim describes.
\<close>

theorem is_root_by_name:
  "(is_root n \<longleftrightarrow> name n = ROOT_NAME)
   \<and> is_root (n\<lparr>parent_node := p\<rparr>) = is_root n
   \<and> (parent_node n = None \<longrightarrow> (is_root n \<longleftrightarrow> parent_node n = None \<and> name n = ROOT_NAME))"
  by (simp add: is_root_def)

text \<open>The fresh root node is a root, a fresh node of another name is not.\<close>

theorem is_root_by_name_witness:
  "parent_node (Node ROOT_NAME K_ROOT) = None \<and> is_root (Node ROOT_NAME K_ROOT)
   \<and> \<not> is_root (Node NAME_CASH K_CASH)"
  using is_root_by_name [of "Node ROOT_NAME K_ROOT" None]
    is_root_by_name [of "Node NAME_CASH K_CASH" None]
  by (simp add: Node_def str_defs)

text \<open>
  A child added to the root under the root's own name has a parent and still answers
  \<open>is_root\<close> with true: the equivalence with ``no parent and the reserved name'' fails.
\<close>

theorem is_root_with_parent_counterexample:
  "is_root (root_named_child_heap ! 1) \<and> parent_node (root_named_child_heap ! 1) = Some 0
   \<and> \<not> (is_root (root_named_child_heap ! 1)
          \<longleftrightarrow> parent_node (root_named_child_heap ! 1) = None
                \<and> name (root_named_child_heap ! 1) = ROOT_NAME)"
  by (simp add: root_named_child_heap_def run_ops_def eval_defs str_defs Let_def)

section \<open>\<open>get_available_child_names\<close>\<close>

text \<open>
  Claim C4, as the code has it: the result is empty when the node cannot have children
  or, not being the root, has no valid child type; in every other case it ends with the
  fallback name. At the root it is the fixed list of six names, whose last one is the
  fallback name. Elsewhere it is the list of the catalog with the fallback name appended:
  the symbol names of the node's own type when there is exactly one valid child type and
  the name of that type ends in \<open>_SYMBOL\<close>, and the available names of the valid child
  types otherwise.
\<close>

theorem available_names_end:
  "(can_have_children P n \<and> (is_root n \<or> get_valid_child_types P n \<noteq> [])
      \<longrightarrow> (\<exists>xs. get_available_child_names P n = xs @ [NAME_OTHER]))
   \<and> (\<not> (can_have_children P n \<and> (is_root n \<or> get_valid_child_types P n \<noteq> []))
      \<longrightarrow> get_available_child_names P n = [])
   \<and> (can_have_children P n \<and> is_root n
      \<longrightarrow> get_available_child_names P n
            = [NAME_CASH, NAME_ETF, NAME_STOCK, NAME_FUND, NAME_CRYPTO, NAME_OTHER])
   \<and> (can_have_children P n \<and> \<not> is_root n \<and> get_valid_child_types P n \<noteq> []
      \<longrightarrow> get_available_child_names P n
            = (if length (remdups (get_valid_child_types P n)) = 1
                  \<and> endswith (nt_name P (hd (get_valid_child_types P n))) SYMBOL_SUFFIX
               then ar_get_symbol_names P (node_type n)
               else ar_get_available_names P (get_valid_child_types P n))
              @ [NAME_OTHER])"
proof -
  have "[NAME_CASH, NAME_ETF, NAME_STOCK, NAME_FUND, NAME_CRYPTO, NAME_OTHER]
          = [NAME_CASH, NAME_ETF, NAME_STOCK, NAME_FUND, NAME_CRYPTO] @ [NAME_OTHER]"
    by simp
  then show ?thesis
    unfolding get_available_child_names_def Let_def
    by (auto simp del: append.simps endswith.simps)
qed

text \<open>
  With the catalog of the second sample policy: an ETF category gets the symbol names,
  a fund category the available names, a leaf nothing, the root the six categories.
\<close>

theorem available_names_end_witness:
  "get_available_child_names catalog_policy (Node NAME_ETF K_ETF) = [VTI, VXUS, NAME_OTHER]
   \<and> get_available_child_names catalog_policy (Node NAME_FUND K_FUND)
       = [NAME_STOCK, NAME_CASH, NAME_OTHER]
   \<and> get_available_child_names catalog_policy (Node NAME_STOCK K_STOCK) = []
   \<and> get_available_child_names catalog_policy (Node ROOT_NAME K_ROOT)
       = [NAME_CASH, NAME_ETF, NAME_STOCK, NAME_FUND, NAME_CRYPTO, NAME_OTHER]"
proof -
  have etf: "can_have_children catalog_policy (Node NAME_ETF K_ETF)
      \<and> \<not> is_root (Node NAME_ETF K_ETF)
      \<and> get_valid_child_types catalog_policy (Node NAME_ETF K_ETF) = [K_ETF_SYMBOL]
      \<and> endswith (nt_name catalog_policy K_ETF_SYMBOL) SYMBOL_SUFFIX
      \<and> ar_get_symbol_names catalog_policy (node_type (Node NAME_ETF K_ETF)) = [VTI, VXUS]"
    by (simp add: can_have_children_def get_valid_child_types_def is_root_def Node_def
        catalog_policy_def str_defs)
  have fund: "can_have_children catalog_policy (Node NAME_FUND K_FUND)
      \<and> \<not> is_root (Node NAME_FUND K_FUND)
      \<and> get_valid_child_types catalog_policy (Node NAME_FUND K_FUND) = [K_STOCK, K_CASH]
      \<and> ar_get_available_names catalog_policy [K_STOCK, K_CASH] = [NAME_STOCK, NAME_CASH]"
    by (simp add: can_have_children_def get_valid_child_types_def is_root_def Node_def
        catalog_policy_def str_defs)
  have leaf: "\<not> can_have_children catalog_policy (Node NAME_STOCK K_STOCK)"
    by (simp add: can_have_children_def Node_def catalog_policy_def)
  have top: "can_have_children catalog_policy (Node ROOT_NAME K_ROOT)
      \<and> is_root (Node ROOT_NAME K_ROOT)"
    by (simp add: can_have_children_def is_root_def Node_def catalog_policy_def)
  from etf available_names_end [of catalog_policy "Node NAME_ETF K_ETF"]
  have "get_available_child_names catalog_policy (Node NAME_ETF K_ETF) = [VTI, VXUS, NAME_OTHER]"
    by (simp del: endswith.simps)
  moreover from fund available_names_end [of catalog_policy "Node NAME_FUND K_FUND"]
  have "get_available_child_names catalog_policy (Node NAME_FUND K_FUND)
      = [NAME_STOCK, NAME_CASH, NAME_OTHER]"
    by (simp del: endswith.simps)
  moreover from leaf available_names_end [of catalog_policy "Node NAME_STOCK K_STOCK"]
  have "get_available_child_names catalog_policy (Node NAME_STOCK K_STOCK) = []"
    by blast
  moreover from top available_names_end [of catalog_policy "Node ROOT_NAME K_ROOT"]
  have "get_available_child_names catalog_policy (Node ROOT_NAME K_ROOT)
      = [NAME_CASH, NAME_ETF, NAME_STOCK, NAME_FUND, NAME_CRYPTO, NAME_OTHER]"
    by blast
  ultimately show ?thesis by blast
qed

text \<open>For a leaf the result is empty, so nothing was appended to it.\<close>

theorem available_names_leaf_counterexample:
  "get_available_child_names sample_policy (Node NAME_STOCK K_STOCK) = []
   \<and> \<not> (get_available_child_names sample_policy (Node NAME_STOCK K_STOCK) \<noteq> []
          \<and> last (get_available_child_names sample_policy (Node NAME_STOCK K_STOCK)) = NAME_OTHER)"
  by (simp add: get_available_child_names_def eval_defs)

section \<open>\<open>add_child\<close> on a node that takes no children\<close>

text \<open>
  Claim C5, as the code has it: on a node that cannot have children \<open>add_child\<close> always
  fails and changes nothing, so the children never grow. The name is checked first: the
  message is the one for an empty or existing name when the stripped name is empty or a
  key of \<open>children\<close>, and the one for ``children cannot be added'' otherwise.
\<close>

theorem add_child_leaf:
  assumes "\<not> can_have_children P (h ! self)"
  shows "add_child P h self nm w =
           (h, Inr (None,
              if strip nm = [] \<or> strip nm \<in> fst ` set (children (h ! self))
              then MSG_EMPTY_OR_EXISTS else MSG_CANNOT_ADD))"
  using assms by (simp add: add_child_def Let_def)

text \<open>A cash leaf refuses the name \<open>A\<close>.\<close>

theorem add_child_leaf_witness:
  "\<not> can_have_children sample_policy ([Node NAME_CASH K_CASH] ! 0)
   \<and> add_child sample_policy [Node NAME_CASH K_CASH] 0 [0x41] 100
       = ([Node NAME_CASH K_CASH], Inr (None, MSG_CANNOT_ADD))"
proof -
  have leaf: "\<not> can_have_children sample_policy ([Node NAME_CASH K_CASH] ! 0)"
    by (simp add: can_have_children_def sample_policy_def Node_def)
  show ?thesis
    using leaf add_child_leaf [OF leaf, of "[0x41]" 100]
    by (simp add: strip_def is_space_def Node_def)
qed

text \<open>With the empty name the same leaf reports the other error.\<close>

theorem add_child_leaf_empty_name_counterexample:
  "\<not> can_have_children sample_policy ([Node NAME_CASH K_CASH] ! 0)
   \<and> add_child sample_policy [Node NAME_CASH K_CASH] 0 [] 100
       = ([Node NAME_CASH K_CASH], Inr (None, MSG_EMPTY_OR_EXISTS))
   \<and> MSG_EMPTY_OR_EXISTS \<noteq> MSG_CANNOT_ADD"
  by (simp add: eval_defs str_defs Let_def)

section \<open>What \<open>add_child\<close> and \<open>remove_child\<close> compute\<close>

lemma delete_as_filter: "AList.delete k al = filter (\<lambda>e. fst e \<noteq> k) al"
  by (induction al) (auto simp: AList.delete_eq)

lemma update_fresh_key: "k \<notin> fst ` set al \<Longrightarrow> AList.update k v al = al @ [(k, v)]"
  by (induction al) auto

lemma init_alloc_result:
  assumes "self < length h"
  shows "initialize_child_allocation h self nm w =
     (let g = allocation_group (h ! self); n = length (children (h ! self)) in
      if n = 1 then (set_group h self (update_allocation g nm w), Inr ())
      else if \<not> (\<forall>f \<in> fset (fixed_items g). f \<in> fst ` set (allocations g))
      then (h, Inl KeyError)
      else (set_group h self (update_allocation g nm
              (if int n - int (fcard (fixed_items g)) > 0
               then (100 - (\<Sum>f \<in> fset (fixed_items g). get_allocation g f 0))
                      / real_of_int (int n - int (fcard (fixed_items g)))
               else 0)), Inr ()))"
  by (simp add: initialize_child_allocation_def group_truthy_def Let_def fixed_sum_def)

lemma add_child_result:
  assumes "self < length h"
  shows "add_child P h self nm w =
     (let cn = strip nm in
      if cn = [] \<or> cn \<in> fst ` set (children (h ! self)) then (h, Inr (None, MSG_EMPTY_OR_EXISTS))
      else if \<not> can_have_children P (h ! self) then (h, Inr (None, MSG_CANNOT_ADD))
      else case determine_child_type P (h ! self) cn of
             None \<Rightarrow> (h, Inr (None, MSG_UNSUPPORTED))
           | Some t \<Rightarrow>
               (case initialize_child_allocation (inserted h self cn t) self cn w of
                  (h4, Inl e) \<Rightarrow> (h4, Inl e)
                | (h4, Inr u) \<Rightarrow> (h4, Inr (Some (length h), []))))"
  using assms
  by (simp add: add_child_def Let_def inserted_def set_children_def nth_append
      update_fresh_key list_update_append split: option.split)

lemma inserted_self:
  assumes "self < length h"
  shows "inserted h self cn t ! self = (h ! self)\<lparr>children := children (h ! self) @ [(cn, length h)]\<rparr>"
    and "length (inserted h self cn t) = Suc (length h)"
    and "inserted h self cn t ! length h = (Node cn t)\<lparr>parent_node := Some self\<rparr>"
    and "r < length h \<Longrightarrow> r \<noteq> self \<Longrightarrow> inserted h self cn t ! r = h ! r"
  using assms by (simp_all add: inserted_def nth_append)

lemma add_child_self_after:
  assumes "self < length h"
  shows "children (fst (add_child P h self nm w) ! self) = children (h ! self)
         \<or> (strip nm \<noteq> [] \<and> strip nm \<notin> fst ` set (children (h ! self))
            \<and> children (fst (add_child P h self nm w) ! self)
                = children (h ! self) @ [(strip nm, length h)])"
  using assms
  by (simp add: add_child_result init_alloc_result inserted_self Let_def set_group_def
      split: option.split)

lemma remove_child_result:
  assumes "self < length h" and "nm \<in> fst ` set (children (h ! self))"
  shows "remove_child h self nm =
     (h[self := (h ! self)
          \<lparr>children := filter (\<lambda>e. fst e \<noteq> nm) (children (h ! self)),
           allocation_group :=
             (allocation_group (h ! self))
               \<lparr>allocations :=
                  filter (\<lambda>e. fst e \<noteq> nm) (allocations (allocation_group (h ! self))),
                fixed_items := fixed_items (allocation_group (h ! self)) |-| {|nm|}\<rparr>\<rparr>], True)"
proof -
  let ?g = "allocation_group (h ! self)"
  have absent_alloc: "nm \<notin> fst ` set (allocations ?g)
      \<Longrightarrow> filter (\<lambda>e. fst e \<noteq> nm) (allocations ?g) = allocations ?g"
    by (rule filter_True) auto
  have absent_fixed: "\<not> nm |\<in>| fixed_items ?g \<Longrightarrow> fixed_items ?g |-| {|nm|} = fixed_items ?g"
    by auto
  show ?thesis
    using assms absent_alloc absent_fixed
    by (simp add: remove_child_def Let_def set_children_def set_group_def group_truthy_def
        delete_as_filter)
qed

section \<open>The allocation of a new child\<close>

text \<open>
  Claim C2: when \<open>add_child\<close> succeeds, the node has one child more, the entry of the new
  child (under its stripped name) is the parent weight when it is the only child, and
  otherwise the unfixed total divided by the unfixed count when that count is positive
  and 0 when it is not; every other entry of \<open>allocations\<close> and the set \<open>fixed_items\<close>
  are as before.
\<close>

theorem add_child_new_allocation:
  assumes "self < length h"
    and "add_child P h self nm w = (h', Inr (Some c, msg))"
  shows "let g = allocation_group (h ! self);
             g' = allocation_group (h' ! self);
             n = length (children (h' ! self));
             unfixed_total = 100 - (\<Sum>f \<in> fset (fixed_items g). get_allocation g f 0);
             unfixed_count = int n - int (fcard (fixed_items g))
         in n = length (children (h ! self)) + 1
            \<and> (n \<noteq> 1 \<longrightarrow> (\<forall>f \<in> fset (fixed_items g). f \<in> fst ` set (allocations g)))
            \<and> map_of (allocations g') (strip nm)
                = Some (if n = 1 then w
                        else if unfixed_count > 0 then unfixed_total / real_of_int unfixed_count
                        else 0)
            \<and> (\<forall>k. k \<noteq> strip nm \<longrightarrow> map_of (allocations g') k = map_of (allocations g) k)
            \<and> fixed_items g' = fixed_items g"
  using assms
  by (auto simp: add_child_result init_alloc_result inserted_self Let_def set_group_def
      update_allocation_def AList.update_conv' split: option.splits if_splits)

text \<open>With \<open>VTI\<close> pinned at 70, a third child gets (100 - 70) / (3 - 1) = 15.\<close>

theorem add_child_new_allocation_witness:
  "0 < length etf_heap
   \<and> snd (add_child sample_policy etf_heap 0 BND 100) = Inr (Some 3, [])
   \<and> allocations (allocation_group (fst (add_child sample_policy etf_heap 0 BND 100) ! 0))
       = [(VTI, 70), (VXUS, 30), (BND, 15)]
   \<and> map_of (allocations (allocation_group (fst (add_child sample_policy etf_heap 0 BND 100) ! 0)))
       BND = Some 15"
proof -
  have len: "0 < length etf_heap" by (simp add: etf_heap_def)
  have run: "add_child sample_policy etf_heap 0 BND 100
      = (fst (add_child sample_policy etf_heap 0 BND 100), Inr (Some 3, []))"
    by (simp add: sample_defs eval_defs str_defs Let_def)
  have allocs: "allocations (allocation_group (fst (add_child sample_policy etf_heap 0 BND 100) ! 0))
       = [(VTI, 70), (VXUS, 30), (BND, 15)]"
    by (simp add: sample_defs eval_defs str_defs Let_def)
  have "snd (add_child sample_policy etf_heap 0 BND 100) = Inr (Some 3, [])"
    using run by (metis snd_conv)
  then show ?thesis
    using len allocs add_child_new_allocation [OF len run]
    by (simp add: sample_defs)
qed

section \<open>Removal\<close>

text \<open>
  Claim C7: removing an existing child returns true; the node loses that entry of
  \<open>children\<close>, that entry of \<open>allocations\<close> and that member of \<open>fixed_items\<close>, the other
  entries keep their order and their values (no percentage is rewritten), and nothing
  else in the heap changes. Removing a name that is no key of \<open>children\<close> returns false
  and changes nothing.
\<close>

theorem remove_child_bookkeeping:
  assumes "self < length h"
  shows "(nm \<in> fst ` set (children (h ! self)) \<longrightarrow>
            (\<exists>h'. remove_child h self nm = (h', True)
               \<and> length h' = length h
               \<and> (\<forall>r. r \<noteq> self \<longrightarrow> h' ! r = h ! r)
               \<and> name (h' ! self) = name (h ! self)
               \<and> node_type (h' ! self) = node_type (h ! self)
               \<and> parent_node (h' ! self) = parent_node (h ! self)
               \<and> children (h' ! self) = filter (\<lambda>e. fst e \<noteq> nm) (children (h ! self))
               \<and> allocations (allocation_group (h' ! self))
                   = filter (\<lambda>e. fst e \<noteq> nm) (allocations (allocation_group (h ! self)))
               \<and> fixed_items (allocation_group (h' ! self))
                   = fixed_items (allocation_group (h ! self)) |-| {|nm|}))
       \<and> (nm \<notin> fst ` set (children (h ! self)) \<longrightarrow> remove_child h self nm = (h, False))"
proof (intro conjI impI)
  assume present: "nm \<in> fst ` set (children (h ! self))"
  show "\<exists>h'. remove_child h self nm = (h', True)
               \<and> length h' = length h
               \<and> (\<forall>r. r \<noteq> self \<longrightarrow> h' ! r = h ! r)
               \<and> name (h' ! self) = name (h ! self)
               \<and> node_type (h' ! self) = node_type (h ! self)
               \<and> parent_node (h' ! self) = parent_node (h ! self)
               \<and> children (h' ! self) = filter (\<lambda>e. fst e \<noteq> nm) (children (h ! self))
               \<and> allocations (allocation_group (h' ! self))
                   = filter (\<lambda>e. fst e \<noteq> nm) (allocations (allocation_group (h ! self)))
               \<and> fixed_items (allocation_group (h' ! self))
                   = fixed_items (allocation_group (h ! self)) |-| {|nm|}"
    using assms by (simp add: remove_child_result [OF assms present])
next
  assume "nm \<notin> fst ` set (children (h ! self))"
  then show "remove_child h self nm = (h, False)"
    by (simp add: remove_child_def)
qed

text \<open>Removing the pinned \<open>VTI\<close> leaves \<open>VXUS\<close> at 30; \<open>BND\<close> is no child.\<close>

theorem remove_child_bookkeeping_witness:
  "0 < length etf_heap
   \<and> snd (remove_child etf_heap 0 VTI) = True
   \<and> children (fst (remove_child etf_heap 0 VTI) ! 0) = [(VXUS, 2)]
   \<and> allocations (allocation_group (fst (remove_child etf_heap 0 VTI) ! 0)) = [(VXUS, 30)]
   \<and> fixed_items (allocation_group (fst (remove_child etf_heap 0 VTI) ! 0)) = {||}
   \<and> remove_child etf_heap 0 BND = (etf_heap, False)"
proof -
  have len: "0 < length etf_heap" by (simp add: etf_heap_def)
  have present: "VTI \<in> fst ` set (children (etf_heap ! 0))"
    and absent: "BND \<notin> fst ` set (children (etf_heap ! 0))"
    by (simp_all add: sample_defs)
  from remove_child_bookkeeping [OF len, of VTI] present
  obtain h' where removed: "remove_child etf_heap 0 VTI = (h', True)"
    and kept: "children (h' ! 0) = filter (\<lambda>e. fst e \<noteq> VTI) (children (etf_heap ! 0))"
      "allocations (allocation_group (h' ! 0))
         = filter (\<lambda>e. fst e \<noteq> VTI) (allocations (allocation_group (etf_heap ! 0)))"
      "fixed_items (allocation_group (h' ! 0))
         = fixed_items (allocation_group (etf_heap ! 0)) |-| {|VTI|}"
    by blast
  have "children (h' ! 0) = [(VXUS, 2)]"
    and "allocations (allocation_group (h' ! 0)) = [(VXUS, 30)]"
    and "fixed_items (allocation_group (h' ! 0)) = {||}"
    unfolding kept by (simp_all add: sample_defs)
  moreover have "remove_child etf_heap 0 BND = (etf_heap, False)"
    using remove_child_bookkeeping [OF len, of BND] absent by blast
  ultimately show ?thesis
    using len removed by simp
qed

section \<open>The ledger of a fresh node\<close>

lemma ledger_ok_add_child:
  assumes "ledger_ok h self"
  shows "ledger_ok (fst (add_child P h self nm w)) self"
proof -
  let ?g = "allocation_group (h ! self)"
  from assms have len: "self < length h" and nofixed: "fixed_items ?g = {||}"
    and keys: "map fst (allocations ?g) = map fst (children (h ! self))"
    by (simp_all add: ledger_ok_def)
  have "fst ` set (allocations ?g) = fst ` set (children (h ! self))"
    using keys by (metis set_map)
  then have fresh: "AList.update (strip nm) v (allocations ?g) = allocations ?g @ [(strip nm, v)]"
    if "strip nm \<notin> fst ` set (children (h ! self))" for v
    using that by (simp add: update_fresh_key)
  show ?thesis
    using len nofixed keys fresh
    by (auto simp: ledger_ok_def add_child_result init_alloc_result inserted_self Let_def
        set_group_def update_allocation_def fcard_fempty split: option.splits)
qed

lemma keys_filter: "map fst (filter (\<lambda>e. fst e \<noteq> k) al) = filter (\<lambda>x. x \<noteq> k) (map fst al)"
  by (induction al) auto

lemma ledger_ok_remove_child:
  assumes "ledger_ok h self"
  shows "ledger_ok (fst (remove_child h self nm)) self"
proof (cases "nm \<in> fst ` set (children (h ! self))")
  case True
  from assms have len: "self < length h" by (simp add: ledger_ok_def)
  from assms show ?thesis
    by (simp add: remove_child_result [OF len True] ledger_ok_def keys_filter)
next
  case False
  with assms show ?thesis by (simp add: remove_child_def)
qed

lemma ledger_ok_run_ops:
  assumes "ledger_ok h self"
  shows "ledger_ok (run_ops P h self ops) self"
  using assms unfolding run_ops_def
proof (induction ops arbitrary: h)
  case Nil
  then show ?case by simp
next
  case (Cons op ops)
  have "ledger_ok (apply_op P h self op) self"
    using Cons.prems by (cases op) (simp_all add: ledger_ok_add_child ledger_ok_remove_child)
  then show ?case using Cons.IH by simp
qed

lemma first_child_sum:
  assumes "self < length h" and "children (h ! self) = []"
    and "allocations (allocation_group (h ! self)) = []"
    and "add_child P h self nm w = (h', Inr (Some c, msg))"
  shows "allocations (allocation_group (h' ! self)) = [(strip nm, w)]"
  using assms
  by (auto simp: add_child_result init_alloc_result inserted_self Let_def
      set_group_def update_allocation_def split: option.splits if_splits)

text \<open>
  Claim C1, as the code has it: after any sequence of \<open>add_child\<close> and \<open>remove_child\<close> on
  a freshly constructed node, \<open>fixed_items\<close> is a subset of the keys of \<open>allocations\<close> (it
  is empty, and the keys of \<open>allocations\<close> are the keys of \<open>children\<close>, in the same order);
  when the node has no child at that point, a successful \<open>add_child\<close> with weight \<open>w\<close>
  leaves percentages that sum to \<open>w\<close>, which is 100 by default.
\<close>

theorem fresh_node_ledger:
  "let h = run_ops P [Node nm0 k] 0 ops; g = allocation_group (h ! 0) in
     fset (fixed_items g) \<subseteq> fst ` set (allocations g)
     \<and> fixed_items g = {||}
     \<and> map fst (allocations g) = map fst (children (h ! 0))
     \<and> (children (h ! 0) = [] \<longrightarrow>
          (\<forall>nm w h' c msg. add_child P h 0 nm w = (h', Inr (Some c, msg)) \<longrightarrow>
             sum_list (map snd (allocations (allocation_group (h' ! 0)))) = w))"
proof -
  have "ledger_ok [Node nm0 k] 0"
    by (simp add: ledger_ok_def Node_def AllocationGroup_def)
  then have ok: "ledger_ok (run_ops P [Node nm0 k] 0 ops) 0"
    by (rule ledger_ok_run_ops)
  let ?h = "run_ops P [Node nm0 k] 0 ops"
  have "sum_list (map snd (allocations (allocation_group (h' ! 0)))) = w"
    if "children (?h ! 0) = []" and "add_child P ?h 0 nm w = (h', Inr (Some c, msg))"
    for nm w h' c msg
  proof -
    from ok that(1) have "0 < length ?h" "allocations (allocation_group (?h ! 0)) = []"
      by (simp_all add: ledger_ok_def)
    from first_child_sum [OF this(1) that(1) this(2) that(2)] show ?thesis by simp
  qed
  then have "children (?h ! 0) = [] \<longrightarrow>
          (\<forall>nm w h' c msg. add_child P ?h 0 nm w = (h', Inr (Some c, msg)) \<longrightarrow>
             sum_list (map snd (allocations (allocation_group (h' ! 0)))) = w)"
    by blast
  with ok show ?thesis unfolding Let_def ledger_ok_def by simp
qed

text \<open>After an addition and its removal the root is childless again; the next child gets 100.\<close>

theorem fresh_node_ledger_witness:
  "children (emptied_heap ! 0) = []
   \<and> snd (add_child sample_policy emptied_heap 0 [0x42] 100) = Inr (Some 2, [])
   \<and> sum_list (map snd (allocations (allocation_group
        (fst (add_child sample_policy emptied_heap 0 [0x42] 100) ! 0)))) = 100"
proof -
  have h: "emptied_heap = [Node ROOT_NAME K_ROOT, (Node [0x41] K_OTHER)\<lparr>parent_node := Some 0\<rparr>]"
    by (simp add: emptied_heap_def run_ops_def eval_defs str_defs Let_def)
  have empty: "children (emptied_heap ! 0) = []"
    unfolding h by (simp add: Node_def)
  have run: "add_child sample_policy emptied_heap 0 [0x42] 100
      = (fst (add_child sample_policy emptied_heap 0 [0x42] 100), Inr (Some 2, []))"
    unfolding h by (simp add: eval_defs str_defs Let_def)
  from fresh_node_ledger
    [of sample_policy ROOT_NAME K_ROOT "[AddChild [0x41] 100, RemoveChild [0x41]]"]
    empty run
  have "sum_list (map snd (allocations (allocation_group
          (fst (add_child sample_policy emptied_heap 0 [0x42] 100) ! 0)))) = 100"
    unfolding Let_def emptied_heap_def by blast
  moreover have "snd (add_child sample_policy emptied_heap 0 [0x42] 100) = Inr (Some 2, [])"
    using run by (metis snd_conv)
  ultimately show ?thesis using empty by blast
qed

text \<open>
  Two additions to a fresh root: the first child keeps its 100, the second gets 50, and
  the percentages sum to 150.
\<close>

theorem sum_not_kept_counterexample:
  "allocations (allocation_group (two_children_heap ! 0)) = [([0x41], 100), ([0x42], 50)]
   \<and> sum_list (map snd (allocations (allocation_group (two_children_heap ! 0)))) = 150
   \<and> \<bar>sum_list (map snd (allocations (allocation_group (two_children_heap ! 0)))) - 100\<bar> = 50"
  by (simp add: two_children_heap_def run_ops_def eval_defs str_defs Let_def)

section \<open>Parent links are kept\<close>

lemma reachable_valid:
  assumes "tree_links_ok h r0" and "reachable h r0 r"
  shows "r < length h"
  using assms(2)
proof (cases rule: reachable.cases)
  case reach_root
  with assms(1) show ?thesis by (simp add: tree_links_ok_def)
next
  case (reach_child p nm)
  with assms(1) have "links_ok h p" by (simp add: tree_links_ok_def)
  with reach_child(2) show ?thesis by (auto simp: links_ok_def)
qed

text \<open>
  A step of the heap that keeps names and parent links, adds only new objects that are
  well linked and childless, and adds no other entry to any \<open>children\<close>.
\<close>

lemma tree_links_step:
  assumes ok: "tree_links_ok h r0"
    and len: "length h \<le> length h'"
    and same: "\<And>r. r < length h \<Longrightarrow>
        name (h' ! r) = name (h ! r) \<and> parent_node (h' ! r) = parent_node (h ! r)"
    and edges: "\<And>r nm c. r < length h \<Longrightarrow> (nm, c) \<in> set (children (h' ! r)) \<Longrightarrow>
        (nm, c) \<in> set (children (h ! r))
        \<or> (length h \<le> c \<and> c < length h' \<and> parent_node (h' ! c) = Some r \<and> name (h' ! c) = nm)"
    and fresh: "\<And>r. length h \<le> r \<Longrightarrow> r < length h' \<Longrightarrow> children (h' ! r) = []"
  shows "tree_links_ok h' r0"
proof -
  have reach: "reachable h r0 r \<or> (length h \<le> r \<and> r < length h')"
    if "reachable h' r0 r" for r
    using that
  proof (induction rule: reachable.induct)
    case reach_root
    show ?case by (simp add: reachable.reach_root)
  next
    case (reach_child p nm c)
    from reach_child.IH show ?case
    proof
      assume old: "reachable h r0 p"
      then have "p < length h" using ok by (rule reachable_valid [rotated])
      from edges [OF this reach_child.hyps(2)] old show ?thesis
        by (auto intro: reachable.reach_child)
    next
      assume "length h \<le> p \<and> p < length h'"
      then have "children (h' ! p) = []" using fresh by simp
      with reach_child.hyps(2) show ?thesis by simp
    qed
  qed
  have "links_ok h' r" if "reachable h' r0 r" for r
  proof -
    from reach [OF that] show ?thesis
    proof
      assume old: "reachable h r0 r"
      then have r: "r < length h" using ok by (rule reachable_valid [rotated])
      from old ok have lk: "links_ok h r" by (simp add: tree_links_ok_def)
      show ?thesis
        unfolding links_ok_def
      proof (clarify)
        fix nm c
        assume e: "(nm, c) \<in> set (children (h' ! r))"
        from edges [OF r e]
        show "c < length h' \<and> parent_node (h' ! c) = Some r \<and> name (h' ! c) = nm"
        proof
          assume "(nm, c) \<in> set (children (h ! r))"
          with lk have "c < length h" "parent_node (h ! c) = Some r" "name (h ! c) = nm"
            by (auto simp: links_ok_def)
          with same [of c] len show ?thesis by simp
        next
          assume "length h \<le> c \<and> c < length h' \<and> parent_node (h' ! c) = Some r \<and> name (h' ! c) = nm"
          then show ?thesis by simp
        qed
      qed
    next
      assume "length h \<le> r \<and> r < length h'"
      then have "children (h' ! r) = []" using fresh by simp
      then show ?thesis by (simp add: links_ok_def)
    qed
  qed
  moreover from ok len have "r0 < length h'" by (simp add: tree_links_ok_def)
  ultimately show ?thesis by (simp add: tree_links_ok_def)
qed

lemma set_group_links:
  assumes "self < length h"
  shows "length (set_group h self g) = length h"
    and "name (set_group h self g ! r) = name (h ! r)"
    and "parent_node (set_group h self g ! r) = parent_node (h ! r)"
    and "children (set_group h self g ! r) = children (h ! r)"
  using assms by (simp_all add: set_group_def nth_list_update)

lemma inserted_links:
  assumes "self < length h"
  shows "r < length h \<Longrightarrow> name (inserted h self cn t ! r) = name (h ! r)"
    and "r < length h \<Longrightarrow> parent_node (inserted h self cn t ! r) = parent_node (h ! r)"
    and "r < length h \<Longrightarrow> set (children (inserted h self cn t ! r))
           \<subseteq> set (children (h ! r)) \<union> (if r = self then {(cn, length h)} else {})"
    and "children (inserted h self cn t ! length h) = []"
    and "parent_node (inserted h self cn t ! length h) = Some self"
    and "name (inserted h self cn t ! length h) = cn"
  using assms by (auto simp: inserted_def nth_append nth_list_update Node_def)

lemma add_child_heap:
  assumes "self < length h"
  shows "fst (add_child P h self nm w) = h
         \<or> (\<exists>t g. fst (add_child P h self nm w) = set_group (inserted h self (strip nm) t) self g)
         \<or> (\<exists>t. fst (add_child P h self nm w) = inserted h self (strip nm) t)"
  using assms
  by (auto simp: add_child_result init_alloc_result inserted_self Let_def split: option.splits)

lemma tree_links_inserted:
  assumes ok: "tree_links_ok h r0" and self: "self < length h"
  shows "tree_links_ok (inserted h self cn t) r0"
proof (rule tree_links_step [OF ok])
  show "length h \<le> length (inserted h self cn t)"
    using self by (simp add: inserted_self)
next
  fix r assume "r < length h"
  then show "name (inserted h self cn t ! r) = name (h ! r)
      \<and> parent_node (inserted h self cn t ! r) = parent_node (h ! r)"
    using self by (simp add: inserted_links)
next
  fix r nm c
  assume r: "r < length h" and e: "(nm, c) \<in> set (children (inserted h self cn t ! r))"
  from inserted_links(3) [OF self r, of cn t] e
  have "(nm, c) \<in> set (children (h ! r)) \<or> (r = self \<and> nm = cn \<and> c = length h)"
    by (auto split: if_splits)
  then show "(nm, c) \<in> set (children (h ! r))
      \<or> (length h \<le> c \<and> c < length (inserted h self cn t)
          \<and> parent_node (inserted h self cn t ! c) = Some r \<and> name (inserted h self cn t ! c) = nm)"
    using self by (auto simp: inserted_self(2) inserted_links)
next
  fix r assume "length h \<le> r" "r < length (inserted h self cn t)"
  then have "r = length h" using self by (simp add: inserted_self)
  then show "children (inserted h self cn t ! r) = []"
    using self by (simp add: inserted_links)
qed

lemma tree_links_set_group:
  assumes ok: "tree_links_ok h r0" and self: "self < length h"
  shows "tree_links_ok (set_group h self g) r0"
  by (rule tree_links_step [OF ok]) (simp_all add: set_group_links [OF self])

lemma tree_links_add_child:
  assumes ok: "tree_links_ok h r0" and self: "self < length h"
  shows "tree_links_ok (fst (add_child P h self nm w)) r0"
proof -
  have self': "self < length (inserted h self cn t)" for cn t
    using self by (simp add: inserted_self)
  from add_child_heap [OF self, of P nm w] show ?thesis
    using ok tree_links_inserted [OF ok self]
      tree_links_set_group [OF tree_links_inserted [OF ok self] self']
    by auto
qed

lemma tree_links_remove_child:
  assumes ok: "tree_links_ok h r0" and self: "self < length h"
  shows "tree_links_ok (fst (remove_child h self nm)) r0"
proof (cases "nm \<in> fst ` set (children (h ! self))")
  case True
  show ?thesis
    unfolding remove_child_result [OF self True] fst_conv
  proof (rule tree_links_step [OF ok])
  qed (use self in \<open>auto simp: nth_list_update split: if_splits\<close>)
next
  case False
  with ok show ?thesis by (simp add: remove_child_def)
qed

lemma add_child_new_link:
  assumes "self < length h" and "snd (add_child P h self nm w) = Inr (Some c, msg)"
  shows "(strip nm, c) \<in> set (children (fst (add_child P h self nm w) ! self))
         \<and> parent_node (fst (add_child P h self nm w) ! c) = Some self
         \<and> name (fst (add_child P h self nm w) ! c) = strip nm"
  using assms
  by (auto simp: add_child_result init_alloc_result inserted_self Let_def set_group_def
      nth_list_update Node_def split: option.splits if_splits)

lemma tree_links_fresh: "tree_links_ok [Node nm0 k] 0"
proof -
  have only: "r = 0" if "reachable [Node nm0 k] 0 r" for r
    using that by (induction rule: reachable.induct) (simp_all add: Node_def)
  have childless: "links_ok [Node nm0 k] 0"
    by (simp add: links_ok_def Node_def)
  have "links_ok [Node nm0 k] r" if "reachable [Node nm0 k] 0 r" for r
    using only [OF that] childless by simp
  then show ?thesis
    by (simp add: tree_links_ok_def)
qed

text \<open>
  Claim C10: a freshly constructed node is a well-linked tree, and \<open>add_child\<close> and
  \<open>remove_child\<close>, applied to any node of the heap, keep every tree of the heap well
  linked; a successful \<open>add_child\<close> enters the new child under its stripped name, with
  that name and with the node as its parent.
\<close>

theorem parent_links_kept:
  "tree_links_ok [Node nm0 k] 0
   \<and> (tree_links_ok h r0 \<and> self < length h \<longrightarrow>
        tree_links_ok (fst (add_child P h self nm w)) r0
        \<and> tree_links_ok (fst (remove_child h self nm')) r0)
   \<and> (self < length h \<longrightarrow>
        (\<forall>c msg. snd (add_child P h self nm w) = Inr (Some c, msg) \<longrightarrow>
           (strip nm, c) \<in> set (children (fst (add_child P h self nm w) ! self))
           \<and> parent_node (fst (add_child P h self nm w) ! c) = Some self
           \<and> name (fst (add_child P h self nm w) ! c) = strip nm))"
proof (intro conjI impI)
  show "tree_links_ok [Node nm0 k] 0"
    by (rule tree_links_fresh)
next
  assume "tree_links_ok h r0 \<and> self < length h"
  then show "tree_links_ok (fst (add_child P h self nm w)) r0"
    by (simp add: tree_links_add_child)
next
  assume "tree_links_ok h r0 \<and> self < length h"
  then show "tree_links_ok (fst (remove_child h self nm')) r0"
    by (simp add: tree_links_remove_child)
next
  assume "self < length h"
  then show "\<forall>c msg. snd (add_child P h self nm w) = Inr (Some c, msg) \<longrightarrow>
           (strip nm, c) \<in> set (children (fst (add_child P h self nm w) ! self))
           \<and> parent_node (fst (add_child P h self nm w) ! c) = Some self
           \<and> name (fst (add_child P h self nm w) ! c) = strip nm"
    using add_child_new_link by blast
qed

text \<open>The sample ETF category: a new symbol is linked, and so are the symbols that stay.\<close>

theorem parent_links_kept_witness:
  "tree_links_ok etf_heap 0 \<and> 0 < length etf_heap
   \<and> tree_links_ok (fst (add_child sample_policy etf_heap 0 BND 100)) 0
   \<and> tree_links_ok (fst (remove_child etf_heap 0 VTI)) 0
   \<and> snd (add_child sample_policy etf_heap 0 BND 100) = Inr (Some 3, [])
   \<and> parent_node (fst (add_child sample_policy etf_heap 0 BND 100) ! 3) = Some 0
   \<and> name (fst (add_child sample_policy etf_heap 0 BND 100) ! 3) = BND"
proof -
  have len: "0 < length etf_heap" by (simp add: etf_heap_def)
  have "r \<in> {0, 1, 2}" if "reachable etf_heap 0 r" for r
    using that by (induction rule: reachable.induct) (auto simp: etf_heap_def Node_def)
  moreover have "links_ok etf_heap 0" "links_ok etf_heap 1" "links_ok etf_heap 2"
    by (simp_all add: links_ok_def etf_heap_def Node_def)
  ultimately have "links_ok etf_heap r" if "reachable etf_heap 0 r" for r
    using that by blast
  then have ok: "tree_links_ok etf_heap 0"
    using len by (simp add: tree_links_ok_def)
  have res: "snd (add_child sample_policy etf_heap 0 BND 100) = Inr (Some 3, [])"
    by (simp add: sample_defs eval_defs str_defs Let_def)
  have "strip BND = BND"
    by (simp add: BND_def strip_def is_space_def)
  with ok len res
    parent_links_kept [of ROOT_NAME K_ROOT etf_heap 0 0 sample_policy BND 100 VTI]
  show ?thesis by simp
qed


section \<open>Unique names\<close>

lemma dropWhile_fixed: "xs = [] \<or> \<not> P (hd xs) \<Longrightarrow> dropWhile P xs = xs"
  by (cases xs) auto

lemma dropWhile_head: "dropWhile P xs = [] \<or> \<not> P (hd (dropWhile P xs))"
  by (metis hd_dropWhile)

lemma strip_idem: "strip (strip s) = strip s"
proof -
  let ?u = "dropWhile is_space s"
  let ?v = "dropWhile is_space (rev ?u)"
  have u: "?u = [] \<or> \<not> is_space (hd ?u)" by (rule dropWhile_head)
  have v: "?v = [] \<or> \<not> is_space (hd ?v)" by (rule dropWhile_head)
  have front: "dropWhile is_space (rev ?v) = rev ?v"
  proof (cases "?v = []")
    case True
    show ?thesis unfolding True by simp
  next
    case False
    have "rev ?u = takeWhile is_space (rev ?u) @ ?v" by simp
    then have "?u = rev ?v @ rev (takeWhile is_space (rev ?u))"
      by (metis rev_append rev_rev_ident)
    with False have "hd (rev ?v) = hd ?u" "?u \<noteq> []"
      by (metis hd_append2 rev_is_Nil_conv, metis Nil_is_append_conv rev_is_Nil_conv)
    with u have "\<not> is_space (hd (rev ?v))" by metis
    then show ?thesis by (rule dropWhile_fixed [OF disjI2])
  qed
  have "strip (strip s) = rev (dropWhile is_space (rev (dropWhile is_space (rev ?v))))"
    by (simp add: strip_def)
  also have "\<dots> = rev (dropWhile is_space ?v)" by (simp add: front)
  also have "\<dots> = rev ?v" using v by (simp add: dropWhile_fixed)
  finally show ?thesis by (simp add: strip_def)
qed

lemma unique_names_snoc:
  assumes "unique_names cs" and "strip k \<notin> fst ` set cs"
  shows "unique_names (cs @ [(strip k, c)])"
proof -
  from assms(1) have eq: "map (\<lambda>e. strip (fst e)) cs = map fst cs"
    by (simp add: unique_names_def)
  from assms(1) have "distinct (map (\<lambda>e. strip (fst e)) cs)"
    by (simp add: unique_names_def)
  then have "distinct (map fst cs)" by (simp only: eq)
  moreover from assms(1) have "\<forall>e \<in> set cs. strip (fst e) = fst e"
    by (simp add: unique_names_def)
  ultimately show ?thesis
    using assms(2) unfolding unique_names_def by (simp add: eq strip_idem)
qed

lemma unique_names_filter:
  assumes "unique_names cs"
  shows "unique_names (filter Q cs)"
  using assms by (auto simp: unique_names_def distinct_map_filter)

lemma add_child_nodes:
  assumes "self < length h"
  shows "length (fst (add_child P h self nm w)) = length h
         \<or> (length (fst (add_child P h self nm w)) = Suc (length h)
            \<and> children (fst (add_child P h self nm w) ! length h) = [])"
    and "r < length h \<Longrightarrow> r \<noteq> self \<Longrightarrow> fst (add_child P h self nm w) ! r = h ! r"
  using assms add_child_heap [OF assms, of P nm w]
  by (auto simp: inserted_self set_group_def Node_def nth_list_update)

lemma heap_names_add_child:
  assumes ok: "heap_names_ok h" and self: "self < length h"
  shows "heap_names_ok (fst (add_child P h self nm w))"
proof -
  let ?h' = "fst (add_child P h self nm w)"
  have "unique_names (children (?h' ! r))" if r: "r < length ?h'" for r
  proof -
    consider "r = self" | "r < length h" "r \<noteq> self" | "r = length h" "length ?h' = Suc (length h)"
      using r add_child_nodes(1) [OF self, of P nm w]
      by (cases "r = self") (auto simp: less_Suc_eq)
    then show ?thesis
    proof cases
      case 1
      from ok self have old: "unique_names (children (h ! self))" by (simp add: heap_names_ok_def)
      from add_child_self_after [OF self, of P nm w] show ?thesis
      proof
        assume "children (?h' ! self) = children (h ! self)"
        with old 1 show ?thesis by simp
      next
        assume "strip nm \<noteq> [] \<and> strip nm \<notin> fst ` set (children (h ! self))
            \<and> children (?h' ! self) = children (h ! self) @ [(strip nm, length h)]"
        with old 1 show ?thesis by (simp add: unique_names_snoc)
      qed
    next
      case 2
      with ok add_child_nodes(2) [OF self, of r P nm w] show ?thesis
        by (simp add: heap_names_ok_def)
    next
      case 3
      with add_child_nodes(1) [OF self, of P nm w] show ?thesis
        by (simp add: unique_names_def)
    qed
  qed
  then show ?thesis by (simp add: heap_names_ok_def)
qed

lemma heap_names_remove_child:
  assumes ok: "heap_names_ok h" and self: "self < length h"
  shows "heap_names_ok (fst (remove_child h self nm))"
proof (cases "nm \<in> fst ` set (children (h ! self))")
  case True
  show ?thesis
    unfolding remove_child_result [OF self True] fst_conv
    using ok self
    by (auto simp: heap_names_ok_def nth_list_update unique_names_filter)
next
  case False
  with ok show ?thesis by (simp add: remove_child_def)
qed

lemma add_child_new_entry:
  assumes "self < length h" and "snd (add_child P h self nm w) = Inr (Some c, msg)"
  shows "strip nm \<noteq> [] \<and> strip nm \<notin> fst ` set (children (h ! self))
         \<and> children (fst (add_child P h self nm w) ! self) = children (h ! self) @ [(strip nm, c)]
         \<and> name (fst (add_child P h self nm w) ! c) = strip nm"
  using assms
  by (auto simp: add_child_result init_alloc_result inserted_self Let_def set_group_def
      nth_list_update Node_def split: option.splits if_splits)

lemma names_of_children:
  assumes "unique_names (children (h ! r))" and "links_ok h r"
  shows "distinct (map (\<lambda>e. strip (name (h ! snd e))) (children (h ! r)))"
proof -
  from assms(2) have "\<forall>e \<in> set (children (h ! r)). name (h ! snd e) = fst e"
    by (auto simp: links_ok_def)
  then have "map (\<lambda>e. strip (name (h ! snd e))) (children (h ! r))
      = map (\<lambda>e. strip (fst e)) (children (h ! r))"
    by simp
  with assms(1) show ?thesis by (simp only: unique_names_def)
qed

text \<open>
  Claim C6: the children of every node have unique trimmed names. This holds for a
  fresh node and is kept by \<open>add_child\<close> and \<open>remove_child\<close> on any node of the heap, so
  it holds in every heap that these operations build; where it holds, no two keys of a
  node strip to the same name, and no two child objects of a well-linked node have names
  that do. A successful \<open>add_child\<close> enters the child at the end of \<open>children\<close> under
  the stripped name, which is not empty and was no key, and gives it that name. A name
  that strips to the empty string or to an existing key changes nothing and returns the
  error for an empty or existing name, with no node.
\<close>

theorem add_child_unique_names:
  "heap_names_ok [Node nm0 k]
   \<and> (heap_names_ok h \<and> self < length h \<longrightarrow>
        heap_names_ok (fst (add_child P h self nm w))
        \<and> heap_names_ok (fst (remove_child h self nm')))
   \<and> (heap_names_ok h \<and> r < length h \<longrightarrow>
        distinct (map (\<lambda>e. strip (fst e)) (children (h ! r)))
        \<and> (\<forall>e \<in> set (children (h ! r)). strip (fst e) = fst e)
        \<and> (links_ok h r \<longrightarrow>
             distinct (map (\<lambda>e. strip (name (h ! snd e))) (children (h ! r)))))
   \<and> (self < length h \<longrightarrow>
        (\<forall>c msg. snd (add_child P h self nm w) = Inr (Some c, msg) \<longrightarrow>
           strip nm \<noteq> [] \<and> strip nm \<notin> fst ` set (children (h ! self))
           \<and> children (fst (add_child P h self nm w) ! self)
               = children (h ! self) @ [(strip nm, c)]
           \<and> name (fst (add_child P h self nm w) ! c) = strip nm))
   \<and> (strip nm = [] \<or> strip nm \<in> fst ` set (children (h ! self))
        \<longrightarrow> add_child P h self nm w = (h, Inr (None, MSG_EMPTY_OR_EXISTS)))"
proof (intro conjI impI)
  show "heap_names_ok [Node nm0 k]"
    by (simp add: heap_names_ok_def unique_names_def Node_def)
next
  assume "heap_names_ok h \<and> self < length h"
  then show "heap_names_ok (fst (add_child P h self nm w))"
    by (simp add: heap_names_add_child)
next
  assume "heap_names_ok h \<and> self < length h"
  then show "heap_names_ok (fst (remove_child h self nm'))"
    by (simp add: heap_names_remove_child)
next
  assume "heap_names_ok h \<and> r < length h"
  then have u: "unique_names (children (h ! r))" by (simp add: heap_names_ok_def)
  then show "distinct (map (\<lambda>e. strip (fst e)) (children (h ! r)))"
    and "\<forall>e \<in> set (children (h ! r)). strip (fst e) = fst e"
    by (simp_all add: unique_names_def)
  assume "links_ok h r"
  with u show "distinct (map (\<lambda>e. strip (name (h ! snd e))) (children (h ! r)))"
    by (rule names_of_children)
next
  assume "self < length h"
  then show "\<forall>c msg. snd (add_child P h self nm w) = Inr (Some c, msg) \<longrightarrow>
           strip nm \<noteq> [] \<and> strip nm \<notin> fst ` set (children (h ! self))
           \<and> children (fst (add_child P h self nm w) ! self)
               = children (h ! self) @ [(strip nm, c)]
           \<and> name (fst (add_child P h self nm w) ! c) = strip nm"
    using add_child_new_entry by blast
next
  assume "strip nm = [] \<or> strip nm \<in> fst ` set (children (h ! self))"
  then show "add_child P h self nm w = (h, Inr (None, MSG_EMPTY_OR_EXISTS))"
    by (simp add: add_child_def Let_def)
qed

text \<open>
  The sample ETF category takes \<open>BND\<close> given with a leading blank, under the key
  \<open>BND\<close>; it refuses \<open>VTI\<close> between blanks and a name of blanks only.
\<close>

theorem add_child_unique_names_witness:
  "heap_names_ok etf_heap \<and> 0 < length etf_heap \<and> links_ok etf_heap 0
   \<and> heap_names_ok (fst (add_child sample_policy etf_heap 0 (0x20 # BND) 100))
   \<and> heap_names_ok (fst (remove_child etf_heap 0 VTI))
   \<and> snd (add_child sample_policy etf_heap 0 (0x20 # BND) 100) = Inr (Some 3, [])
   \<and> children (fst (add_child sample_policy etf_heap 0 (0x20 # BND) 100) ! 0)
       = [(VTI, 1), (VXUS, 2), (BND, 3)]
   \<and> name (fst (add_child sample_policy etf_heap 0 (0x20 # BND) 100) ! 3) = BND
   \<and> distinct (map (\<lambda>e. strip (name (etf_heap ! snd e))) (children (etf_heap ! 0)))
   \<and> add_child sample_policy etf_heap 0 (0x20 # VTI @ [0x20]) 100
       = (etf_heap, Inr (None, MSG_EMPTY_OR_EXISTS))
   \<and> add_child sample_policy etf_heap 0 [0x20, 0x09] 100
       = (etf_heap, Inr (None, MSG_EMPTY_OR_EXISTS))"
proof -
  have len: "0 < length etf_heap" by (simp add: etf_heap_def)
  have "unique_names (children (etf_heap ! 0))" "unique_names (children (etf_heap ! 1))"
    "unique_names (children (etf_heap ! 2))"
    by (simp_all add: unique_names_def sample_defs Node_def strip_def is_space_def)
  moreover have "r = 0 \<or> r = 1 \<or> r = 2" if "r < length etf_heap" for r
    using that by (auto simp: etf_heap_def)
  ultimately have ok: "heap_names_ok etf_heap"
    unfolding heap_names_ok_def by metis
  have links: "links_ok etf_heap 0"
    by (simp add: links_ok_def etf_heap_def Node_def)
  have strips: "strip (0x20 # BND) = BND" "strip [0x20, 0x09] = []"
    "strip (0x20 # VTI @ [0x20]) \<in> fst ` set (children (etf_heap ! 0))"
    by (simp_all add: sample_defs strip_def is_space_def)
  have res: "snd (add_child sample_policy etf_heap 0 (0x20 # BND) 100) = Inr (Some 3, [])"
    by (simp add: sample_defs eval_defs str_defs Let_def)
  have kids: "children (etf_heap ! 0) = [(VTI, 1), (VXUS, 2)]"
    by (simp add: etf_heap_def)
  from ok len links strips res kids
    add_child_unique_names [of ROOT_NAME K_ROOT etf_heap 0 sample_policy "0x20 # BND" 100 VTI 0]
    add_child_unique_names [of ROOT_NAME K_ROOT etf_heap 0 sample_policy "0x20 # VTI @ [0x20]" 100 VTI 0]
    add_child_unique_names [of ROOT_NAME K_ROOT etf_heap 0 sample_policy "[0x20, 0x09]" 100 VTI 0]
  show ?thesis by simp
qed

section \<open>\<open>full_path\<close>\<close>

lemma joined_snoc: "xs \<noteq> [] \<Longrightarrow> joined sep (xs @ [x]) = joined sep xs @ sep @ x"
  by (induction sep xs rule: joined.induct) auto

lemma root_path_nonempty: "root_path h ps r \<Longrightarrow> ps \<noteq> []"
  by (induction rule: root_path.induct) auto

lemma root_path_ends: "root_path h ps r \<Longrightarrow> last ps = r"
  by (induction rule: root_path.induct) auto

lemma root_path_starts: "root_path h ps r \<Longrightarrow> parent_node (h ! hd ps) = None"
  by (induction rule: root_path.induct) (auto simp: root_path_nonempty)

lemma reachable_root_path:
  assumes "tree_links_ok h r0" and "parent_node (h ! r0) = None" and "reachable h r0 r"
  shows "\<exists>ps. root_path h ps r \<and> hd ps = r0"
  using assms(3)
proof (induction rule: reachable.induct)
  case reach_root
  from assms(2) have "root_path h [r0] r0" by (rule at_top)
  then show ?case by force
next
  case (reach_child p nm c)
  then obtain ps where ps: "root_path h ps p" "hd ps = r0" by blast
  from reach_child.hyps(1) assms(1) have "links_ok h p" by (simp add: tree_links_ok_def)
  with reach_child.hyps(2) have "parent_node (h ! c) = Some p" by (auto simp: links_ok_def)
  from below [OF this ps(1)] have "root_path h (ps @ [c]) c" .
  moreover from ps have "hd (ps @ [c]) = r0" by (simp add: root_path_nonempty)
  ultimately show ?case by blast
qed

lemma full_path_root_path:
  assumes "root_path h ps r"
  shows "full_path h r = Some (joined PATH_SEP (map (\<lambda>q. name (h ! q)) ps))"
  using assms
proof (induction rule: root_path.induct)
  case (at_top r)
  then show ?case by (subst full_path.simps) simp
next
  case (below r p ps)
  from below.hyps(2) have "ps \<noteq> []" by (rule root_path_nonempty)
  with below.hyps(1) below.IH show ?case
    by (subst full_path.simps) (simp add: joined_snoc)
qed

text \<open>
  Claim C8: where the parent links of a node lead up to a node without parent,
  \<open>full_path\<close> returns the names along that chain, from the top down, joined by the
  separator; this is so for every node reached from the root of a well-linked tree. The
  function reads the heap and returns a string only. For a chain of three nodes the
  result is the three names with a separator between them.
\<close>

theorem full_path_joined:
  "(root_path h ps r \<longrightarrow>
      full_path h r = Some (joined PATH_SEP (map (\<lambda>q. name (h ! q)) ps))
      \<and> last ps = r \<and> parent_node (h ! hd ps) = None)
   \<and> (tree_links_ok h r0 \<and> parent_node (h ! r0) = None \<and> reachable h r0 r \<longrightarrow>
        (\<exists>qs. root_path h qs r \<and> hd qs = r0
           \<and> full_path h r = Some (joined PATH_SEP (map (\<lambda>q. name (h ! q)) qs))))
   \<and> (parent_node (h ! a) = None \<and> parent_node (h ! b) = Some a \<and> parent_node (h ! c) = Some b
      \<longrightarrow> full_path h c
            = Some (name (h ! a) @ PATH_SEP @ name (h ! b) @ PATH_SEP @ name (h ! c)))"
proof (intro conjI impI)
  assume "root_path h ps r"
  then show "full_path h r = Some (joined PATH_SEP (map (\<lambda>q. name (h ! q)) ps))"
    "last ps = r" "parent_node (h ! hd ps) = None"
    by (simp_all add: full_path_root_path root_path_ends root_path_starts)
next
  assume "tree_links_ok h r0 \<and> parent_node (h ! r0) = None \<and> reachable h r0 r"
  then obtain qs where "root_path h qs r" "hd qs = r0"
    using reachable_root_path by blast
  then show "\<exists>qs. root_path h qs r \<and> hd qs = r0
           \<and> full_path h r = Some (joined PATH_SEP (map (\<lambda>q. name (h ! q)) qs))"
    using full_path_root_path by blast
next
  assume chain: "parent_node (h ! a) = None \<and> parent_node (h ! b) = Some a
      \<and> parent_node (h ! c) = Some b"
  then have "full_path h a = Some (name (h ! a))"
    by (subst full_path.simps) simp
  with chain have "full_path h b = Some (name (h ! a) @ PATH_SEP @ name (h ! b))"
    by (subst full_path.simps) simp
  with chain show "full_path h c
      = Some (name (h ! a) @ PATH_SEP @ name (h ! b) @ PATH_SEP @ name (h ! c))"
    by (subst full_path.simps) simp
qed

lemma chain_heap_nodes:
  "chain_heap =
     [\<lparr>name = ROOT_NAME, node_type = K_ROOT, children = [(NAME_ETF, 1)],
       allocation_group = \<lparr>allocations = [(NAME_ETF, 100)], fixed_items = {||}\<rparr>,
       parent_node = None\<rparr>,
      \<lparr>name = NAME_ETF, node_type = K_ETF, children = [(VTI, 2)],
       allocation_group = \<lparr>allocations = [(VTI, 100)], fixed_items = {||}\<rparr>,
       parent_node = Some 0\<rparr>,
      \<lparr>name = VTI, node_type = K_ETF_SYMBOL, children = [],
       allocation_group = \<lparr>allocations = [], fixed_items = {||}\<rparr>,
       parent_node = Some 1\<rparr>]"
  by (simp add: chain_heap_def sample_defs eval_defs str_defs Let_def)

text \<open>The chain of the sample heap.\<close>

theorem full_path_joined_witness:
  "root_path chain_heap [0, 1, 2] 2
   \<and> tree_links_ok chain_heap 0 \<and> reachable chain_heap 0 2
   \<and> parent_node (chain_heap ! 0) = None \<and> parent_node (chain_heap ! 1) = Some 0
   \<and> parent_node (chain_heap ! 2) = Some 1
   \<and> full_path chain_heap 2 = Some (ROOT_NAME @ PATH_SEP @ NAME_ETF @ PATH_SEP @ VTI)
   \<and> joined PATH_SEP [ROOT_NAME, NAME_ETF, VTI] = ROOT_NAME @ PATH_SEP @ NAME_ETF @ PATH_SEP @ VTI"
proof -
  have links: "parent_node (chain_heap ! 0) = None" "parent_node (chain_heap ! 1) = Some 0"
    "parent_node (chain_heap ! 2) = Some 1"
    by (simp_all add: chain_heap_nodes)
  have names: "name (chain_heap ! 0) = ROOT_NAME" "name (chain_heap ! 1) = NAME_ETF"
    "name (chain_heap ! 2) = VTI"
    by (simp_all add: chain_heap_nodes)
  have "root_path chain_heap [0] 0"
    using links(1) by (rule at_top)
  from below [OF links(2) this] have "root_path chain_heap [0, 1] 1" by simp
  from below [OF links(3) this] have path: "root_path chain_heap [0, 1, 2] 2" by simp
  let ?h1 = "fst (add_child sample_policy [Node ROOT_NAME K_ROOT] 0 NAME_ETF 100)"
  have "tree_links_ok ?h1 0"
    by (rule tree_links_add_child [OF tree_links_fresh]) simp
  moreover have "1 < length ?h1"
    by (simp add: eval_defs str_defs Let_def)
  ultimately have ok: "tree_links_ok chain_heap 0"
    unfolding chain_heap_def by (rule tree_links_add_child)
  have "(NAME_ETF, 1) \<in> set (children (chain_heap ! 0))"
    and "(VTI, 2) \<in> set (children (chain_heap ! 1))"
    by (simp_all add: chain_heap_nodes)
  then have reach: "reachable chain_heap 0 2"
    using reach_root reach_child by metis
  from path ok reach links names full_path_joined [of chain_heap "[0, 1, 2]" 2 0 0 1 2]
  show ?thesis by simp
qed


section \<open>The links of the Sankey chart\<close>

lemma sankey_pop:
  assumes "parent_idx \<noteq> - 1"
  shows "sankey_loop P h (S @ [(r, parent_idx, w)]) c =
         sankey_loop P h
           (S @ rev (map (child_entry h r (int (length (node_labels c))) w)
                       (map snd (children (h ! r)))))
           (visited P h r parent_idx w c)"
  using assms
  by (subst sankey_loop.simps)
    (simp add: Let_def visited_def child_entry_def local_pct_def rev_map comp_def)

lemma sankey_done: "sankey_loop P h [] c = Some c"
  by (subst sankey_loop.simps) simp

lemma weight_along_snoc:
  assumes "pre \<noteq> []"
  shows "weight_along h w (pre @ [c]) = weight_along h w pre * local_pct h (last pre) c / 100"
  using assms
proof (induction h w pre rule: weight_along.induct)
  case (1 h w p c' rest)
  then show ?case by simp
qed simp_all

lemma global_weight_snoc:
  assumes "pre \<noteq> []"
  shows "global_weight h (pre @ [c]) = global_weight h pre * local_pct h (last pre) c / 100"
  using assms by (simp add: global_weight_def weight_along_snoc)

lemma chart_for_visited:
  assumes c: "chart_for P h D c"
    and idx: "0 \<le> parent_idx" "nat parent_idx < length D" "D ! nat parent_idx = pre"
  shows "chart_for P h (D @ [pre @ [r]]) (visited P h r parent_idx (global_weight h (pre @ [r])) c)"
proof -
  from c have D: "D \<noteq> []" by (simp add: chart_for_def)
  then have lenD: "0 < length D" by simp
  let ?c' = "visited P h r parent_idx (global_weight h (pre @ [r])) c"
  let ?D' = "D @ [pre @ [r]]"
  have labels: "node_labels ?c' = map (\<lambda>p. name (h ! last p)) ?D'"
    and colors: "node_colors ?c' = map (\<lambda>p. get_color P (node_type (h ! last p))) ?D'"
    using c by (simp_all add: chart_for_def visited_def)
  have flows: "flow_values ?c' = map (global_weight h) (tl ?D')"
    using c D by (simp add: chart_for_def visited_def)
  have "[1..<length D + 1] = [1..<length D] @ [length D]"
    using lenD by (simp add: Suc_leI)
  then have targets: "target_indices ?c' = map int [1..<length ?D']"
    using c by (simp add: chart_for_def visited_def)
  have srclen: "length (source_indices ?c') = length ?D' - 1"
    using c lenD by (simp add: chart_for_def visited_def)
  have sources: "0 \<le> source_indices ?c' ! i \<and> nat (source_indices ?c' ! i) < length ?D'
      \<and> ?D' ! nat (source_indices ?c' ! i) = butlast (?D' ! (i + 1))"
    if i: "i < length ?D' - 1" for i
  proof (cases "i < length D - 1")
    case True
    with c have old: "0 \<le> source_indices c ! i" "nat (source_indices c ! i) < length D"
      "D ! nat (source_indices c ! i) = butlast (D ! (i + 1))"
      and len: "length (source_indices c) = length D - 1"
      by (simp_all add: chart_for_def)
    from True len have "source_indices ?c' ! i = source_indices c ! i"
      by (simp add: visited_def nth_append)
    moreover from True have "i + 1 < length D" by simp
    ultimately show ?thesis using old by (simp add: nth_append)
  next
    case False
    with i have i_eq: "i = length D - 1" by simp
    from c have len: "length (source_indices c) = length D - 1" by (simp add: chart_for_def)
    from i_eq len have "source_indices ?c' ! i = parent_idx"
      by (simp add: visited_def nth_append)
    moreover from i_eq lenD have "?D' ! (i + 1) = pre @ [r]" by (simp add: nth_append)
    ultimately show ?thesis using idx by (simp add: nth_append)
  qed
  show ?thesis
    unfolding chart_for_def
    using labels colors flows targets srclen sources by blast
qed

lemma traversal:
  shows "preorder h pre r ps \<Longrightarrow>
           (\<And>c D parent_idx. chart_for P h D c \<Longrightarrow> 0 \<le> parent_idx \<Longrightarrow> nat parent_idx < length D
              \<Longrightarrow> D ! nat parent_idx = pre \<Longrightarrow>
              \<exists>c'. chart_for P h (D @ ps) c'
                 \<and> (\<forall>S. sankey_loop P h (S @ [(r, parent_idx, global_weight h (pre @ [r]))]) c
                         = sankey_loop P h S c'))"
    and "preorder_forest h pre cs pss \<Longrightarrow>
           (\<And>c D idx. chart_for P h D c \<Longrightarrow> 0 \<le> idx \<Longrightarrow> nat idx < length D
              \<Longrightarrow> D ! nat idx = pre \<Longrightarrow> pre \<noteq> [] \<Longrightarrow>
              \<exists>c'. chart_for P h (D @ pss) c'
                 \<and> (\<forall>S. sankey_loop P h
                            (S @ rev (map (child_entry h (last pre) idx (global_weight h pre)) cs)) c
                         = sankey_loop P h S c'))"
proof (induction rule: preorder_preorder_forest.inducts)
  case (visit pre r pss)
  let ?w = "global_weight h (pre @ [r])"
  let ?c1 = "visited P h r parent_idx ?w c"
  let ?D1 = "D @ [pre @ [r]]"
  from visit.prems have c1: "chart_for P h ?D1 ?c1"
    by (rule chart_for_visited)
  from visit.prems(1) have labels: "length (node_labels c) = length D"
    by (simp add: chart_for_def)
  have "\<exists>c'. chart_for P h (?D1 @ pss) c'
      \<and> (\<forall>S. sankey_loop P h
               (S @ rev (map (child_entry h (last (pre @ [r])) (int (length D)) ?w)
                           (map snd (children (h ! r))))) ?c1
             = sankey_loop P h S c')"
    by (rule visit.IH(2) [OF c1]) simp_all
  then obtain c' where c': "chart_for P h (?D1 @ pss) c'"
    and run: "\<And>S. sankey_loop P h
               (S @ rev (map (child_entry h r (int (length D)) ?w) (map snd (children (h ! r))))) ?c1
             = sankey_loop P h S c'"
    by auto
  from visit.prems(2) have "parent_idx \<noteq> - 1" by simp
  then have "sankey_loop P h (S @ [(r, parent_idx, ?w)]) c = sankey_loop P h S c'" for S
    using run [of S] by (simp add: sankey_pop labels)
  with c' show ?case by auto
next
  case (no_child pre)
  then show ?case by auto
next
  case (next_child pre c1 ps cs pss)
  let ?entry = "child_entry h (last pre) idx (global_weight h pre)"
  have w: "?entry c1 = (c1, idx, global_weight h (pre @ [c1]))"
    using next_child.prems(5) by (simp add: child_entry_def global_weight_snoc)
  from next_child.IH(2) [OF next_child.prems(1-4)]
  obtain ca where ca: "chart_for P h (D @ ps) ca"
    and first: "\<And>S. sankey_loop P h (S @ [(c1, idx, global_weight h (pre @ [c1]))]) c
                    = sankey_loop P h S ca"
    by auto
  have "nat idx < length (D @ ps)" "(D @ ps) ! nat idx = pre"
    using next_child.prems(3,4) by (simp_all add: nth_append)
  from next_child.IH(4) [OF ca next_child.prems(2) this next_child.prems(5)]
  obtain cb where cb: "chart_for P h ((D @ ps) @ pss) cb"
    and others: "\<And>S. sankey_loop P h (S @ rev (map ?entry cs)) ca = sankey_loop P h S cb"
    by auto
  have "sankey_loop P h (S @ rev (map ?entry (c1 # cs))) c = sankey_loop P h S cb" for S
  proof -
    have "sankey_loop P h (S @ rev (map ?entry (c1 # cs))) c
        = sankey_loop P h ((S @ rev (map ?entry cs)) @ [(c1, idx, global_weight h (pre @ [c1]))]) c"
      by (simp add: w)
    also have "\<dots> = sankey_loop P h (S @ rev (map ?entry cs)) ca"
      by (rule first)
    also have "\<dots> = sankey_loop P h S cb"
      by (rule others)
    finally show ?thesis .
  qed
  with cb show ?case by auto
qed

lemma child_path_snoc:
  assumes "pre \<noteq> []"
  shows "child_path h (pre @ [c])
         \<longleftrightarrow> child_path h pre \<and> c \<in> snd ` set (children (h ! last pre))"
  using assms
proof (induction h pre rule: child_path.induct)
  case (1 h p c' rest)
  then show ?case by simp
qed simp_all

lemma preorder_paths:
  shows "preorder h pre r ps \<Longrightarrow> child_path h (pre @ [r]) \<Longrightarrow>
           (\<forall>p \<in> set ps. child_path h p \<and> (\<exists>q. p = pre @ r # q))"
    and "preorder_forest h pre cs pss \<Longrightarrow> pre \<noteq> [] \<Longrightarrow> child_path h pre \<Longrightarrow>
           set cs \<subseteq> snd ` set (children (h ! last pre)) \<Longrightarrow>
           (\<forall>p \<in> set pss. child_path h p \<and> (\<exists>q. p = pre @ q))"
proof (induction rule: preorder_preorder_forest.inducts)
  case (visit pre r pss)
  have "\<forall>p \<in> set pss. child_path h p \<and> (\<exists>q. p = (pre @ [r]) @ q)"
    by (rule visit.IH(2)) (use visit.prems in simp_all)
  with visit.prems show ?case by auto
next
  case (no_child pre)
  show ?case by simp
next
  case (next_child pre c ps cs pss)
  from next_child.prems have "child_path h (pre @ [c])"
    by (simp add: child_path_snoc)
  from next_child.IH(2) [OF this] next_child.IH(4) [OF next_child.prems(1,2)] next_child.prems(3)
  show ?case by auto
qed

text \<open>
  Every node of a heap built by \<open>add_child\<close> and \<open>remove_child\<close> from fresh nodes has
  its preorder list of paths.
\<close>

lemma preorder_exists:
  assumes "ordered_heap h" and "r < length h"
  shows "\<exists>ps. preorder h pre r ps"
  using assms(2)
proof (induction "length h - r" arbitrary: r pre rule: less_induct)
  case less
  let ?cs = "map snd (children (h ! r))"
  have below: "\<exists>ps. preorder h pre' c ps" if "c \<in> set ?cs" for c pre'
  proof -
    from that assms(1) less.prems have "r < c" "c < length h"
      by (auto simp: ordered_heap_def)
    then show ?thesis using less.hyps [of c pre'] by simp
  qed
  have "\<exists>pss. preorder_forest h (pre @ [r]) cs pss" if "set cs \<subseteq> set ?cs" for cs
    using that
  proof (induction cs)
    case Nil
    show ?case using no_child by blast
  next
    case (Cons c cs)
    then obtain ps pss where "preorder h (pre @ [r]) c ps" "preorder_forest h (pre @ [r]) cs pss"
      using below [of c "pre @ [r]"] by auto
    then show ?case using next_child by blast
  qed
  then obtain pss where "preorder_forest h (pre @ [r]) ?cs pss" by blast
  then show ?case using visit by blast
qed

lemma ordered_fresh: "ordered_heap [Node nm0 k]"
  by (simp add: ordered_heap_def Node_def)

lemma ordered_set_group:
  assumes "ordered_heap h" and "self < length h"
  shows "ordered_heap (set_group h self g)"
  using assms by (auto simp: ordered_heap_def set_group_def nth_list_update)

lemma ordered_inserted:
  assumes "ordered_heap h" and "self < length h"
  shows "ordered_heap (inserted h self cn t)"
  using assms
  by (auto simp: ordered_heap_def inserted_def nth_list_update nth_append Node_def less_Suc_eq
      split: if_splits)

lemma ordered_add_child:
  assumes "ordered_heap h" and "self < length h"
  shows "ordered_heap (fst (add_child P h self nm w))"
proof -
  have self': "self < length (inserted h self cn t)" for cn t
    using assms(2) by (simp add: inserted_self)
  from add_child_heap [OF assms(2), of P nm w] show ?thesis
    using assms(1) ordered_inserted [OF assms]
      ordered_set_group [OF ordered_inserted [OF assms] self']
    by auto
qed

lemma ordered_remove_child:
  assumes "ordered_heap h" and "self < length h"
  shows "ordered_heap (fst (remove_child h self nm))"
proof (cases "nm \<in> fst ` set (children (h ! self))")
  case True
  show ?thesis
    unfolding remove_child_result [OF assms(2) True] fst_conv
    using assms by (auto simp: ordered_heap_def nth_list_update split: if_splits)
next
  case False
  with assms(1) show ?thesis by (simp add: remove_child_def)
qed

text \<open>
  Claim C9: on a tree (the paths of the tree in preorder being \<open>paths\<close>),
  \<open>create_sankey_chart\<close> returns a chart with one label for each path and one link for
  each path but the root's. The link number \<open>i\<close> goes to the node of the path number
  \<open>i + 1\<close>, comes from the node of that path without its last step, the parent, and its
  flow value is the global weight along that path.
\<close>

theorem sankey_links_global_weight:
  assumes "preorder h [] r0 paths"
  shows "\<exists>chart. create_sankey_chart P h r0 = Some chart
     \<and> node_labels chart = map (\<lambda>p. name (h ! last p)) paths
     \<and> length (flow_values chart) = length paths - 1
     \<and> length (source_indices chart) = length paths - 1
     \<and> length (target_indices chart) = length paths - 1
     \<and> (\<forall>p \<in> set paths. p \<noteq> [] \<and> hd p = r0 \<and> child_path h p)
     \<and> (\<forall>i < length paths - 1.
           target_indices chart ! i = int (i + 1)
           \<and> 0 \<le> source_indices chart ! i \<and> nat (source_indices chart ! i) < length paths
           \<and> paths ! nat (source_indices chart ! i) = butlast (paths ! (i + 1))
           \<and> flow_values chart ! i = global_weight h (paths ! (i + 1)))"
proof -
  from assms obtain pss where paths: "paths = [r0] # pss"
    and forest: "preorder_forest h [r0] (map snd (children (h ! r0))) pss"
    by (cases rule: preorder.cases) auto
  let ?c0 = "SankeyChart
      \<lparr>node_labels := [name (h ! r0)], node_colors := [get_color P (node_type (h ! r0))]\<rparr>"
  have c0: "chart_for P h [[r0]] ?c0"
    by (simp add: chart_for_def SankeyChart_def)
  have start: "create_sankey_chart P h r0 =
      sankey_loop P h
        ([] @ rev (map (child_entry h (last [r0]) 0 (global_weight h [r0]))
                     (map snd (children (h ! r0))))) ?c0"
    unfolding create_sankey_chart_def
    by (subst sankey_loop.simps)
      (simp add: Let_def SankeyChart_def child_entry_def local_pct_def global_weight_def
        rev_map comp_def)
  from traversal(2) [OF forest c0, of 0]
  obtain chart where chart: "chart_for P h ([[r0]] @ pss) chart"
    and run: "\<And>S. sankey_loop P h
        (S @ rev (map (child_entry h (last [r0]) 0 (global_weight h [r0]))
                    (map snd (children (h ! r0))))) ?c0 = sankey_loop P h S chart"
    by auto
  have result: "create_sankey_chart P h r0 = Some chart"
    unfolding start run [of "[]"] by (rule sankey_done)
  from chart have cf: "chart_for P h paths chart" by (simp add: paths)
  from preorder_paths(1) [OF assms] have wf: "\<forall>p \<in> set paths. p \<noteq> [] \<and> hd p = r0 \<and> child_path h p"
    by auto
  have links: "target_indices chart ! i = int (i + 1)
           \<and> 0 \<le> source_indices chart ! i \<and> nat (source_indices chart ! i) < length paths
           \<and> paths ! nat (source_indices chart ! i) = butlast (paths ! (i + 1))
           \<and> flow_values chart ! i = global_weight h (paths ! (i + 1))"
    if "i < length paths - 1" for i
  proof -
    from cf that have "flow_values chart ! i = global_weight h (paths ! (i + 1))"
      by (simp add: chart_for_def nth_tl)
    moreover from cf that have "target_indices chart ! i = int (i + 1)"
      by (simp add: chart_for_def)
    ultimately show ?thesis using cf that by (simp add: chart_for_def)
  qed
  from cf have "node_labels chart = map (\<lambda>p. name (h ! last p)) paths"
    "length (flow_values chart) = length paths - 1"
    "length (source_indices chart) = length paths - 1"
    "length (target_indices chart) = length paths - 1"
    by (simp_all add: chart_for_def)
  with result wf links show ?thesis by blast
qed

lemma sankey_heap_chart:
  "create_sankey_chart sample_policy sankey_heap 0 =
     Some \<lparr>source_indices = [0, 1, 1, 0], target_indices = [1, 2, 3, 4],
           flow_values = [60, 30, 0, 40],
           node_labels = [ROOT_NAME, NAME_ETF, VTI, VXUS, NAME_CASH],
           node_colors = [[], [], [], [], []]\<rparr>"
  by (simp add: create_sankey_chart_def sankey_loop.simps SankeyChart_def sankey_heap_def
      Node_def AllocationGroup_def get_allocation_def sample_policy_def Let_def str_defs
      sample_defs)

lemma sankey_heap_preorder:
  "preorder sankey_heap [] 0 [[0], [0, 1], [0, 1, 3], [0, 1, 4], [0, 2]]"
proof -
  have leaf: "preorder sankey_heap pre r [pre @ [r]]" if "children (sankey_heap ! r) = []" for pre r
    using visit [of sankey_heap pre r "[]"] that by (simp add: no_child)
  have "preorder sankey_heap [0, 1] 3 [[0, 1, 3]]" "preorder sankey_heap [0, 1] 4 [[0, 1, 4]]"
    "preorder sankey_heap [0] 2 [[0, 2]]"
    using leaf [of 3 "[0, 1]"] leaf [of 4 "[0, 1]"] leaf [of 2 "[0]"]
    by (simp_all add: sankey_heap_def Node_def)
  then have kids: "preorder_forest sankey_heap [0, 1] [3, 4] [[0, 1, 3], [0, 1, 4]]"
    and cash: "preorder_forest sankey_heap [0] [2] [[0, 2]]"
    using next_child [of sankey_heap "[0, 1]" 3 "[[0, 1, 3]]" "[4]" "[[0, 1, 4]]"]
      next_child [of sankey_heap "[0, 1]" 4 "[[0, 1, 4]]" "[]" "[]"]
      next_child [of sankey_heap "[0]" 2 "[[0, 2]]" "[]" "[]"]
    by (simp_all add: no_child)
  have "preorder sankey_heap [0] 1 [[0, 1], [0, 1, 3], [0, 1, 4]]"
    using visit [of sankey_heap "[0]" 1 "[[0, 1, 3], [0, 1, 4]]"] kids
    by (simp add: sankey_heap_def)
  from next_child [OF this cash]
  have "preorder_forest sankey_heap [0] [1, 2] [[0, 1], [0, 1, 3], [0, 1, 4], [0, 2]]"
    by simp
  then show ?thesis
    using visit [of sankey_heap "[]" 0 "[[0, 1], [0, 1, 3], [0, 1, 4], [0, 2]]"]
    by (simp add: sankey_heap_def)
qed

text \<open>
  On the sample tree the links carry 60, 30, 0 and 40; the flow into \<open>VTI\<close> is
  100 * 60 / 100 * 50 / 100.
\<close>

theorem sankey_links_global_weight_witness:
  "preorder sankey_heap [] 0 [[0], [0, 1], [0, 1, 3], [0, 1, 4], [0, 2]]
   \<and> create_sankey_chart sample_policy sankey_heap 0 =
       Some \<lparr>source_indices = [0, 1, 1, 0], target_indices = [1, 2, 3, 4],
             flow_values = [60, 30, 0, 40],
             node_labels = [ROOT_NAME, NAME_ETF, VTI, VXUS, NAME_CASH],
             node_colors = [[], [], [], [], []]\<rparr>
   \<and> global_weight sankey_heap [0, 1] = 60
   \<and> global_weight sankey_heap [0, 1, 3] = 100 * 60 / 100 * 50 / 100
   \<and> global_weight sankey_heap [0, 1, 4] = 0
   \<and> global_weight sankey_heap [0, 2] = 40"
proof -
  note pre = sankey_heap_preorder
  from sankey_links_global_weight [OF pre, of sample_policy]
  obtain chart where chart: "create_sankey_chart sample_policy sankey_heap 0 = Some chart"
    and flow: "\<forall>i < length [[0], [0, 1], [0, 1, 3], [0, 1, 4], [0, 2::nat]] - 1.
       flow_values chart ! i
         = global_weight sankey_heap ([[0], [0, 1], [0, 1, 3], [0, 1, 4], [0, 2]] ! (i + 1))"
    by blast
  from chart have flows: "flow_values chart = [60, 30, 0, 40]"
    by (auto simp: sankey_heap_chart)
  from flow have "flow_values chart ! 0 = global_weight sankey_heap [0, 1]"
    "flow_values chart ! 1 = global_weight sankey_heap [0, 1, 3]"
    "flow_values chart ! 2 = global_weight sankey_heap [0, 1, 4]"
    "flow_values chart ! 3 = global_weight sankey_heap [0, 2]"
    by simp_all
  then have "global_weight sankey_heap [0, 1] = 60"
    "global_weight sankey_heap [0, 1, 3] = 100 * 60 / 100 * 50 / 100"
    "global_weight sankey_heap [0, 1, 4] = 0"
    "global_weight sankey_heap [0, 2] = 40"
    unfolding flows by simp_all
  then show ?thesis
    using pre sankey_heap_chart by simp
qed

end
